theory Spec2Isabelle
  imports Complex_Main
begin

section \<open>Data model\<close>

text \<open>
  A rich-text field (\<open>Decoration[]\<close> of \<open>notion-types\<close>) is a sequence of
  \<open>[text, decorations?]\<close> pairs. \<open>d[0]\<close> of a pair is its text.
\<close>

type_synonym decoration = "string \<times> string list list"

text \<open>
  The \<open>properties\<close> bag of a block, keyed by role. Every field may be absent
  (\<open>undefined\<close> in the source, \<open>None\<close> here).
\<close>

record properties =
  title :: "decoration list option"
  caption :: "decoration list option"
  link :: "decoration list option"
  checked :: "decoration list option"
  language :: "decoration list option"
  source :: "decoration list option"

text \<open>
  The \<open>format\<close> bag of presentation hints. JavaScript numbers are modelled as
  rationals (no claim below depends on floating-point rounding or on \<open>NaN\<close>).
\<close>

record format =
  page_icon :: "string option"
  block_color :: "string option"
  column_ratio :: "rat option"
  block_aspect_ratio :: "rat option"
  block_height :: "rat option"
  block_width :: "rat option"
  block_full_width :: "bool option"
  block_page_width :: "bool option"
  block_preserve_scale :: "bool option"
  display_source :: "string option"
  bookmark_icon :: "string option"
  bookmark_cover :: "string option"

text \<open>
  A block record (\<open>block.value\<close> in the source). The \<open>type\<close> tag is a string at run
  time, so it is a string here; \<open>properties\<close>, \<open>format\<close> and \<open>content\<close> are
  optional, as the \<open>?.\<close> accesses of the source show.
\<close>

record block =
  type :: string
  properties :: "properties option"
  format :: "format option"
  content :: "string list option"
  collection_id :: "string option"
  view_ids :: "string list option"

text \<open>
  What \<open>blockMap[id]\<close> can be: an object of which the source reads the property
  \<open>value\<close>, named \<open>blockValue\<close> here (as the source's local variable for it). An
  entry of the block map is \<open>{role, value}\<close>; either property reads as
  \<open>undefined\<close> (\<open>None\<close>) when it is not there, which \<open>groupBlocks\<close> tests for.
\<close>

record entry =
  role :: "string option"
  blockValue :: "block option"

text \<open>
  The block map is a JavaScript object: an association list of its own
  properties in the order \<open>Object.keys\<close> enumerates them.
\<close>

type_synonym blockmap = "(string \<times> entry) list"

text \<open>
  The read \<open>blockMap[id]\<close> looks first among the own properties of the object and
  then along its prototype chain: for a name that is not an own property but is
  a member of \<open>Object.prototype\<close> it finds that member, a function (or, for
  \<open>__proto__\<close>, the prototype itself), which is truthy and has neither a \<open>role\<close>
  nor a \<open>value\<close> property. For every other name it gives \<open>undefined\<close>.
\<close>

definition prototype_members :: "string list" where
  "prototype_members =
     [''constructor'', ''hasOwnProperty'', ''isPrototypeOf'', ''propertyIsEnumerable'',
      ''toLocaleString'', ''toString'', ''valueOf'', ''__proto__'', ''__defineGetter__'',
      ''__defineSetter__'', ''__lookupGetter__'', ''__lookupSetter__'']"

definition inherited_member :: entry where
  "inherited_member = \<lparr>role = None, blockValue = None\<rparr>"

definition lookup :: "blockmap \<Rightarrow> string \<Rightarrow> entry option" where
  "lookup blockMap blockId =
     (case map_of blockMap blockId of
        Some e \<Rightarrow> Some e
      | None \<Rightarrow> if blockId \<in> set prototype_members then Some inherited_member else None)"

text \<open>One element of what \<open>getTextContent\<close> returns: \<open>{text, ...decorations}\<close>.\<close>

record span =
  span_text :: string
  span_decorations :: "string list list"

text \<open>
  The helpers imported from \<open>./util\<close> are parameters of the model. Their types
  follow their use in the source: \<open>getTextContent\<close> may return \<open>undefined\<close>
  (the bookmark case guards it with \<open>|| []\<close>), \<open>findListIndex\<close> returns a number,
  \<open>getTopLevelPageBlock\<close> returns a page block record, \<open>mapImageURL\<close> maps a raw
  source (possibly \<open>undefined\<close>) to a URL.
\<close>

record util =
  getTextContent :: "decoration list option \<Rightarrow> span list option"
  findListIndex :: "string \<Rightarrow> blockmap \<Rightarrow> int"
  getTopLevelPageBlock :: "block \<Rightarrow> blockmap \<Rightarrow> block"
  mapImageURL :: "string option \<Rightarrow> block \<Rightarrow> string option"

text \<open>
  The value of the local variable \<open>content\<close> when the \<open>switch\<close> is left: one
  constructor per object shape the source builds, fields in the order the source
  writes them.
\<close>

datatype content =
    NoContent
    \<comment> \<open>\<open>content\<close> never assigned\<close>
  | TextContent "span list option"
    \<comment> \<open>\<open>getTextContent(title)\<close>\<close>
  | PageLinkContent "string option" "string option"
    \<comment> \<open>\<open>{title, icon}\<close>\<close>
  | ListContent "span list option" int "string option"
    \<comment> \<open>\<open>{text, start, color}\<close>\<close>
  | HeaderContent "span list option" nat
    \<comment> \<open>\<open>{text, level}\<close>\<close>
  | TodoContent "span list option" bool
    \<comment> \<open>\<open>{text, checked}\<close>\<close>
  | TocContent "(string \<times> nat \<times> span list option) list"
    \<comment> \<open>a list of \<open>{id, level, text}\<close>\<close>
  | ColumnContent rat
    \<comment> \<open>\<open>{ratio}\<close>\<close>
  | QuoteContent "span list option" "string option"
    \<comment> \<open>\<open>{text, color}\<close>\<close>
  | EquationContent "string option"
    \<comment> \<open>\<open>{math}\<close>\<close>
  | CodeContent "span list option" "string option"
    \<comment> \<open>\<open>{text, language}\<close>\<close>
  | MediaContent "rat option" "rat option" "rat option" "bool option" "bool option"
      "bool option" "string option" "span list option"
    \<comment> \<open>\<open>{aspectRatio, height, width, fullWidth, pageWidth, preserveScale, src, caption}\<close>\<close>
  | CalloutContent "span list option" "string option" "string option"
    \<comment> \<open>\<open>{text, icon, color}\<close>\<close>
  | BookmarkContent string string string "string option" "string option" "string option"
    \<comment> \<open>\<open>{link, title, desc, favicon, thumbnail, color}\<close>\<close>
  | CollectionViewContent "string option" "string list option"
    \<comment> \<open>\<open>{collectionId, viewIds}\<close>\<close>

text \<open>
  The exceptions a call can end with. The source has no \<open>throw\<close> and no
  \<open>catch\<close>: a \<open>TypeError\<close> comes from reading a property of \<open>undefined\<close>, a
  \<open>RangeError\<close> from the engine, when a call finds the call stack exhausted.
\<close>

datatype error = TypeError | RangeError

text \<open>
  A rule builds an output node from \<open>(blockId, content, children)\<close>; it may return
  \<open>undefined\<close> (\<open>None\<close>). \<open>TransformationRules<T>\<close> is indexed by the kind, a
  string; a kind without a rule reads as \<open>undefined\<close>.
\<close>

type_synonym 't rule = "string \<Rightarrow> content \<Rightarrow> 't list option \<Rightarrow> 't option"

type_synonym 't rules = "string \<Rightarrow> 't rule option"

section \<open>Property accesses of the source\<close>

text \<open>\<open>block.value.properties?.title\<close> and its siblings.\<close>

definition prop_opt :: "(properties \<Rightarrow> 'a option) \<Rightarrow> block \<Rightarrow> 'a option" where
  "prop_opt field b = (case properties b of None \<Rightarrow> None | Some p \<Rightarrow> field p)"

text \<open>\<open>block.value.format?.page_icon\<close> and its siblings.\<close>

definition format_opt :: "(format \<Rightarrow> 'a option) \<Rightarrow> block \<Rightarrow> 'a option" where
  "format_opt field b = (case format b of None \<Rightarrow> None | Some f \<Rightarrow> field f)"

text \<open>\<open>d?.[0]?.[0]\<close> on an optional rich-text field: never raises.\<close>

definition first_text :: "decoration list option \<Rightarrow> string option" where
  "first_text d = (case d of None \<Rightarrow> None | Some [] \<Rightarrow> None | Some (x # _) \<Rightarrow> Some (fst x))"

text \<open>
  \<open>d?.[0][0]\<close>: \<open>undefined\<close> when the field is absent, a \<open>TypeError\<close> when the
  field is an empty array (\<open>undefined[0]\<close>).
\<close>

definition first_text_strict :: "decoration list option \<Rightarrow> error + string option" where
  "first_text_strict d =
     (case d of None \<Rightarrow> Inr None | Some [] \<Rightarrow> Inl TypeError | Some (x # _) \<Rightarrow> Inr (Some (fst x)))"

text \<open>\<open>{ header: 1, sub_header: 2, sub_sub_header: 3 }[type]\<close>, on the three keys.\<close>

definition header_level :: "string \<Rightarrow> nat" where
  "header_level t = (if t = ''header'' then 1 else if t = ''sub_header'' then 2 else 3)"

text \<open>\<open>(getTextContent(title) || []).reduce((a, b) => a + b.text, "")\<close>.\<close>

definition concat_spans :: "span list option \<Rightarrow> string" where
  "concat_spans s = foldl (\<lambda>a b. a @ span_text b) [] (case s of None \<Rightarrow> [] | Some xs \<Rightarrow> xs)"

text \<open>
  The callback of the \<open>table_of_contents\<close> case: an entry for a child that is in the
  map, has a value and is of a header type; \<open>null\<close> otherwise.
\<close>

definition toc_entry :: "util \<Rightarrow> blockmap \<Rightarrow> string \<Rightarrow> (string \<times> nat \<times> span list option) option" where
  "toc_entry U blockMap blockId =
     (case lookup blockMap blockId of
        None \<Rightarrow> None
      | Some e \<Rightarrow>
          (case blockValue e of
             None \<Rightarrow> None
           | Some v \<Rightarrow>
               if type v = ''header'' \<or> type v = ''sub_header'' \<or> type v = ''sub_sub_header''
               then Some (blockId, header_level (type v), getTextContent U (prop_opt title v))
               else None))"

section \<open>transformBlockMap\<close>

text \<open>
  The \<open>switch\<close> of \<open>transformBlockMap\<close>: the values of \<open>type\<close> and \<open>content\<close>
  when it is left, and the identifiers the branch maps the recursive call over
  (\<open>block.value.content\<close> in a branch that assigns \<open>children\<close>, \<open>None\<close> in a
  branch that does not). Every branch of the source computes its content before it
  recurses, so a \<open>TypeError\<close> of the content precedes the recursion here as there.
\<close>

definition resolveBlock ::
  "util \<Rightarrow> blockmap \<Rightarrow> string \<Rightarrow> block \<Rightarrow> bool \<Rightarrow> error + (string \<times> content \<times> string list option)"
where
  "resolveBlock U blockMap blockId v isTopLevel =
    (let t = type v; text_content = getTextContent U (prop_opt title v) in
     if t = ''text'' then Inr (t, TextContent text_content, None)
     else if t = ''toggle'' then Inr (t, TextContent text_content, content v)
     else if t = ''page'' then
       (if isTopLevel then Inr (t, NoContent, content v)
        else (case properties v of
                None \<Rightarrow> Inl TypeError
              | Some p \<Rightarrow>
                  Inr (''pageLink'', PageLinkContent (first_text (title p)) (format_opt page_icon v),
                       None)))
     else if t = ''bulleted_list'' \<or> t = ''numbered_list'' then
       Inr (t, ListContent text_content (findListIndex U blockId blockMap)
                 (format_opt block_color v), content v)
     else if t = ''header'' \<or> t = ''sub_header'' \<or> t = ''sub_sub_header'' then
       Inr (''header'', HeaderContent text_content (header_level t), None)
     else if t = ''to_do'' then
       (case properties v of
          None \<Rightarrow> Inl TypeError
        | Some p \<Rightarrow>
            Inr (t, TodoContent text_content (first_text (checked p) = Some ''Yes''), content v))
     else if t = ''table_of_contents'' then
       (let page = getTopLevelPageBlock U v blockMap in
        Inr (t, TocContent (List.map_filter (toc_entry U blockMap)
                              (case content page of None \<Rightarrow> [] | Some ids \<Rightarrow> ids)), None))
     else if t = ''divider'' then Inr (t, NoContent, None)
     else if t = ''column_list'' then Inr (t, NoContent, content v)
     else if t = ''column'' then
       Inr (t, ColumnContent (case format_opt column_ratio v of
                                None \<Rightarrow> 1 / 2
                              | Some r \<Rightarrow> if r = 0 then 1 / 2 else r), content v)
     else if t = ''quote'' then
       Inr (t, QuoteContent text_content (format_opt block_color v), None)
     else if t = ''equation'' then
       (case properties v of
          None \<Rightarrow> Inl TypeError
        | Some p \<Rightarrow>
            (case first_text_strict (title p) of
               Inl e \<Rightarrow> Inl e
             | Inr m \<Rightarrow> Inr (t, EquationContent m, None)))
     else if t = ''code'' then
       (case first_text_strict (prop_opt language v) of
          Inl e \<Rightarrow> Inl e
        | Inr l \<Rightarrow> Inr (t, CodeContent text_content l, None))
     else if t = ''image'' \<or> t = ''video'' then
       Inr (t, MediaContent (format_opt block_aspect_ratio v) (format_opt block_height v)
                 (format_opt block_width v) (format_opt block_full_width v)
                 (format_opt block_page_width v) (format_opt block_preserve_scale v)
                 (mapImageURL U
                    (case format_opt display_source v of
                       Some s \<Rightarrow> Some s
                     | None \<Rightarrow> first_text (prop_opt source v)) v)
                 (getTextContent U (prop_opt caption v)), None)
     else if t = ''callout'' then
       Inr (t, CalloutContent text_content (format_opt page_icon v) (format_opt block_color v),
            None)
     else if t = ''bookmark'' then
       (case properties v of
          None \<Rightarrow> Inl TypeError
        | Some p \<Rightarrow>
            (case link p of
               None \<Rightarrow> Inl TypeError
             | Some [] \<Rightarrow> Inl TypeError
             | Some (l # _) \<Rightarrow>
                 Inr (t, BookmarkContent (fst l)
                           (concat_spans (getTextContent U (title p)))
                           (concat_spans (getTextContent U (title p)))
                           (format_opt bookmark_icon v) (format_opt bookmark_cover v)
                           (format_opt block_color v), None)))
     else if t = ''collection_view'' then
       Inr (t, CollectionViewContent (collection_id v) (view_ids v), None)
     else Inr (t, NoContent, None))"

text \<open>
  \<open>ids?.map((id) => f(id))\<close> where \<open>f\<close> may raise or not return: the calls are
  made in order, the first exception ends the walk, a call that does not return
  (\<open>None\<close>) leaves the walk without a result.
\<close>

primrec map_calls :: "('a \<Rightarrow> (error + 'b) option) \<Rightarrow> 'a list \<Rightarrow> (error + 'b list) option" where
  "map_calls f [] = Some (Inr [])"
| "map_calls f (x # xs) =
     Option.bind (f x) (\<lambda>r.
       case r of
         Inl e \<Rightarrow> Some (Inl e)
       | Inr y \<Rightarrow>
           Option.bind (map_calls f xs) (\<lambda>rs.
             case rs of Inl e \<Rightarrow> Some (Inl e) | Inr ys \<Rightarrow> Some (Inr (y # ys))))"

definition map_children ::
  "('a \<Rightarrow> (error + 'b) option) \<Rightarrow> 'a list option \<Rightarrow> (error + 'b list option) option" where
  "map_children f ids =
     (case ids of
        None \<Rightarrow> Some (Inr None)
      | Some xs \<Rightarrow> Option.bind (map_calls f xs) (\<lambda>r. Some (map_sum id Some r)))"

lemma map_calls_mono [partial_function_mono]:
  assumes "\<And>x. mono_option (\<lambda>f. g f x)"
  shows "mono_option (\<lambda>f. map_calls (g f) xs)"
proof (induction xs)
  case Nil
  show ?case by (simp add: option.const_mono)
next
  case (Cons x xs)
  have inner: "mono_option (\<lambda>f. case r of Inl e \<Rightarrow> Some (Inl e)
       | Inr y \<Rightarrow> Option.bind (map_calls (g f) xs) (\<lambda>rs.
             case rs of Inl e \<Rightarrow> Some (Inl e) | Inr ys \<Rightarrow> Some (Inr (y # ys))))" for r
    by (cases r) (auto intro!: partial_function_mono Cons)
  show ?case
    unfolding map_calls.simps
    by (intro partial_function_mono assms inner)
qed

lemma map_children_mono [partial_function_mono]:
  assumes "\<And>x. mono_option (\<lambda>f. g f x)"
  shows "mono_option (\<lambda>f. map_children (g f) ids)"
  unfolding map_children_def
  by (cases ids) (auto intro!: partial_function_mono assms)

text \<open>
  \<open>children?.filter(Boolean)\<close>: the entries that are \<open>undefined\<close> and the entries
  that are falsy values of \<open>T\<close> are dropped. \<open>B\<close> is JavaScript's \<open>Boolean\<close> on the
  values of \<open>T\<close> other than \<open>undefined\<close>.
\<close>

definition filter_Boolean :: "('t \<Rightarrow> bool) \<Rightarrow> 't option list \<Rightarrow> 't list" where
  "filter_Boolean B xs = List.map_filter (\<lambda>x. case x of None \<Rightarrow> None | Some y \<Rightarrow> if B y then Some y else None) xs"

text \<open>
  \<open>transformBlockMap\<close> on a call stack without bound. The result is
  \<open>Some (Inl TypeError)\<close> when the call raises, \<open>Some (Inr None)\<close> when it returns
  \<open>undefined\<close>, \<open>Some (Inr (Some t))\<close> when it returns the node \<open>t\<close>, and \<open>None\<close>
  when the recursion does not end. On an engine the stack is bounded and such a
  recursion ends with a \<open>RangeError\<close>: that is \<open>transformBlockMap_stack\<close> below.
\<close>

partial_function (option) transformBlockMap ::
  "util \<Rightarrow> ('t \<Rightarrow> bool) \<Rightarrow> blockmap \<Rightarrow> string \<Rightarrow> 't rules \<Rightarrow> bool \<Rightarrow> (error + 't option) option"
where
  "transformBlockMap U B blockMap blockId transformationRules isTopLevel =
     (case lookup blockMap blockId of
        None \<Rightarrow> Some (Inr None)
      | Some blk \<Rightarrow>
          (case blockValue blk of
             None \<Rightarrow> Some (Inl TypeError)
           | Some v \<Rightarrow>
               (case resolveBlock U blockMap blockId v isTopLevel of
                  Inl e \<Rightarrow> Some (Inl e)
                | Inr (kind, c, ids) \<Rightarrow>
                    Option.bind
                      (map_children
                         (\<lambda>i. transformBlockMap U B blockMap i transformationRules False) ids)
                      (\<lambda>r. case r of
                             Inl e \<Rightarrow> Some (Inl e)
                           | Inr children \<Rightarrow>
                               Some (Inr (case transformationRules kind of
                                            None \<Rightarrow> None
                                          | Some rule \<Rightarrow>
                                              rule blockId c
                                                (map_option (filter_Boolean B) children)))))))"

declare transformBlockMap.simps [code]

text \<open>
  The body of \<open>transformBlockMap\<close> with the recursive call as a parameter; the
  function is its own body applied to itself (\<open>transform_unfold\<close> below).
\<close>

definition transform_body ::
  "(string \<Rightarrow> (error + 't option) option) \<Rightarrow> util \<Rightarrow> ('t \<Rightarrow> bool) \<Rightarrow> blockmap \<Rightarrow> string \<Rightarrow> 't rules
     \<Rightarrow> bool \<Rightarrow> (error + 't option) option"
where
  "transform_body call U B blockMap blockId transformationRules isTopLevel =
     (case lookup blockMap blockId of
        None \<Rightarrow> Some (Inr None)
      | Some blk \<Rightarrow>
          (case blockValue blk of
             None \<Rightarrow> Some (Inl TypeError)
           | Some v \<Rightarrow>
               (case resolveBlock U blockMap blockId v isTopLevel of
                  Inl e \<Rightarrow> Some (Inl e)
                | Inr (kind, c, ids) \<Rightarrow>
                    Option.bind (map_children call ids)
                      (\<lambda>r. case r of
                             Inl e \<Rightarrow> Some (Inl e)
                           | Inr children \<Rightarrow>
                               Some (Inr (case transformationRules kind of
                                            None \<Rightarrow> None
                                          | Some rule \<Rightarrow>
                                              rule blockId c
                                                (map_option (filter_Boolean B) children)))))))"

text \<open>
  \<open>transformBlockMap\<close> on a call stack that has room for \<open>n\<close> more of its
  frames. Every call takes a frame; a call that finds no room raises a
  \<open>RangeError\<close>, which nothing in the source catches, so it ends the calls below
  it too. The body is the same.
\<close>

fun transformBlockMap_stack ::
  "nat \<Rightarrow> util \<Rightarrow> ('t \<Rightarrow> bool) \<Rightarrow> blockmap \<Rightarrow> string \<Rightarrow> 't rules \<Rightarrow> bool \<Rightarrow> (error + 't option) option"
where
  "transformBlockMap_stack 0 U B blockMap blockId transformationRules isTopLevel =
     Some (Inl RangeError)"
| "transformBlockMap_stack (Suc n) U B blockMap blockId transformationRules isTopLevel =
     transform_body (\<lambda>i. transformBlockMap_stack n U B blockMap i transformationRules False)
       U B blockMap blockId transformationRules isTopLevel"

section \<open>groupBlocks\<close>

text \<open>
  A JavaScript array that may have empty slots: \<open>None\<close> is a slot that reads as
  \<open>undefined\<close>. \<open>js_index\<close> is the read \<open>xs[i]\<close>, which is \<open>undefined\<close> outside
  the array (the source reads \<open>groups[-1]\<close> when no group has been opened), and
  \<open>js_assign\<close> is the write \<open>xs[i] = v\<close>, which extends the array when \<open>i\<close> is
  past its end. The source writes only after \<open>index++\<close>, at an index that is not
  negative.
\<close>

definition js_index :: "'a option list \<Rightarrow> int \<Rightarrow> 'a option" where
  "js_index xs i = (if 0 \<le> i \<and> nat i < length xs then xs ! nat i else None)"

definition js_assign :: "'a option list \<Rightarrow> int \<Rightarrow> 'a \<Rightarrow> 'a option list" where
  "js_assign xs i v =
     (if i < 0 then xs
      else if nat i < length xs then xs[nat i := Some v]
      else xs @ replicate (nat i - length xs) None @ [Some v])"

text \<open>\<open>blockMap[blockId]?.value?.type\<close>.\<close>

definition child_type :: "blockmap \<Rightarrow> string \<Rightarrow> string option" where
  "child_type blockMap blockId =
     (case lookup blockMap blockId of
        None \<Rightarrow> None
      | Some e \<Rightarrow> (case blockValue e of None \<Rightarrow> None | Some v \<Rightarrow> Some (type v)))"

text \<open>
  The variables the two callbacks share: \<open>groups\<close>, \<open>type\<close> and \<open>index\<close>.
\<close>

type_synonym gstate = "string list option list \<times> string option \<times> int"

text \<open>
  The inner callback, run for one child identifier. A type is truthy when it is
  present and not the empty string. \<open>groups[index].push(blockId)\<close> raises a
  \<open>TypeError\<close> when \<open>groups[index]\<close> is \<open>undefined\<close>.
\<close>

definition group_child :: "blockmap \<Rightarrow> string \<Rightarrow> gstate \<Rightarrow> error + gstate" where
  "group_child blockMap blockId st =
     (case st of (groups, ty, index) \<Rightarrow>
        let blockType = child_type blockMap blockId;
            st1 = (if blockType \<noteq> None \<and> blockType \<noteq> Some [] \<and> blockType \<noteq> ty
                   then (js_assign groups (index + 1) [], blockType, index + 1)
                   else (groups, ty, index))
        in (case st1 of (groups1, ty1, index1) \<Rightarrow>
              (case js_index groups1 index1 of
                 None \<Rightarrow> Inl TypeError
               | Some g \<Rightarrow> Inr (js_assign groups1 index1 (g @ [blockId]), ty1, index1))))"

text \<open>\<open>forEach\<close> with a callback that may raise: the first exception ends it.\<close>

fun for_each :: "('a \<Rightarrow> 's \<Rightarrow> error + 's) \<Rightarrow> 'a list \<Rightarrow> 's \<Rightarrow> error + 's" where
  "for_each f [] s = Inr s"
| "for_each f (x # xs) s = (case f x s of Inl e \<Rightarrow> Inl e | Inr s' \<Rightarrow> for_each f xs s')"

text \<open>
  The outer callback, run for one key of the map: the children of the block are
  walked when the block has a value and a child list, then \<open>type\<close> is reset.
\<close>

definition group_parent :: "blockmap \<Rightarrow> string \<Rightarrow> gstate \<Rightarrow> error + gstate" where
  "group_parent blockMap k st =
     (case (case (case lookup blockMap k of None \<Rightarrow> None | Some e \<Rightarrow> blockValue e) of
              None \<Rightarrow> Inr st
            | Some v \<Rightarrow>
                (case content v of
                   None \<Rightarrow> Inr st
                 | Some ids \<Rightarrow> for_each (group_child blockMap) ids st)) of
        Inl e \<Rightarrow> Inl e
      | Inr (groups, ty, index) \<Rightarrow> Inr (groups, None, index))"

text \<open>
  \<open>groupBlocks\<close>: the keys of the map in the order of the association list
  (each key once, as in an object), from no group, no type and index \<open>-1\<close>.
\<close>

definition groupBlocks :: "blockmap \<Rightarrow> error + string list option list" where
  "groupBlocks blockMap =
     (case for_each (group_parent blockMap) (map fst blockMap) ([], None, - 1) of
        Inl e \<Rightarrow> Inl e
      | Inr (groups, ty, index) \<Rightarrow> Inr groups)"

section \<open>Notions used to state the properties\<close>

text \<open>
  The child identifiers of a key: the child list of its block, empty when the key
  finds nothing in the map or what it finds has no value or no child list.
  \<open>child_rel\<close> is the child-identifier reference as a relation, child first.
\<close>

definition children_of :: "blockmap \<Rightarrow> string \<Rightarrow> string list" where
  "children_of blockMap k =
     (case lookup blockMap k of
        None \<Rightarrow> []
      | Some e \<Rightarrow>
          (case blockValue e of
             None \<Rightarrow> []
           | Some v \<Rightarrow> (case content v of None \<Rightarrow> [] | Some ids \<Rightarrow> ids)))"

definition child_rel :: "blockmap \<Rightarrow> (string \<times> string) set" where
  "child_rel blockMap = {(c, p). c \<in> set (children_of blockMap p)}"

text \<open>
  The children of a list that are in the map, have a value and are of a header
  type, in the order of the list, each with its block.
\<close>

definition header_children :: "blockmap \<Rightarrow> string list \<Rightarrow> (string \<times> block) list" where
  "header_children blockMap ids =
     [(i, v). i \<leftarrow> ids, Some e \<leftarrow> [map_of blockMap i], Some v \<leftarrow> [blockValue e],
              type v = ''header'' \<or> type v = ''sub_header'' \<or> type v = ''sub_sub_header'']"


text \<open>
  A child has a type when \<open>blockMap[blockId]?.value?.type\<close> is truthy.
  \<open>marks\<close> walks one child list and marks the children that start a group: a
  child is marked when it has a type and that type is not the last type seen
  before it in the list (\<open>ty\<close>, none at the start of a parent). \<open>all_marks\<close> is
  the marked child lists of all keys, in the order of the keys, and \<open>cut\<close> cuts
  a marked list into groups: a group is its first child and the unmarked children
  after it.
\<close>

definition has_type :: "blockmap \<Rightarrow> string \<Rightarrow> bool" where
  "has_type blockMap c = (case child_type blockMap c of None \<Rightarrow> False | Some t \<Rightarrow> t \<noteq> [])"

primrec marks :: "blockmap \<Rightarrow> string option \<Rightarrow> string list \<Rightarrow> (string \<times> bool) list" where
  "marks blockMap ty [] = []"
| "marks blockMap ty (c # cs) =
     (c, has_type blockMap c \<and> child_type blockMap c \<noteq> ty)
     # marks blockMap (if has_type blockMap c then child_type blockMap c else ty) cs"

definition all_marks :: "blockmap \<Rightarrow> (string \<times> bool) list" where
  "all_marks blockMap =
     concat (map (\<lambda>k. marks blockMap None (children_of blockMap k)) (map fst blockMap))"

function cut :: "(string \<times> bool) list \<Rightarrow> string list list" where
  "cut [] = []"
| "cut (m # ms) =
     (fst m # map fst (takeWhile (\<lambda>x. \<not> snd x) ms)) # cut (dropWhile (\<lambda>x. \<not> snd x) ms)"
  by pat_completeness auto
termination
  by (relation "measure length") (auto simp: less_Suc_eq_le length_dropWhile_le)

text \<open>
  The same cutting with the groups made so far as an accumulator: a marked child
  opens a group at the end, an unmarked one is appended to the last group.
\<close>

fun extend :: "string list list \<Rightarrow> (string \<times> bool) list \<Rightarrow> string list list" where
  "extend H [] = H"
| "extend H ((c, b) # ms) =
     (if b then extend (H @ [[c]]) ms else extend (butlast H @ [last H @ [c]]) ms)"


section \<open>Example graphs\<close>

text \<open>
  A block with a type and a child list and nothing else, one that also has a
  one-span title, and their entries.
\<close>

definition plain_value :: "string \<Rightarrow> string list option \<Rightarrow> block" where
  "plain_value t c =
     \<lparr>type = t, properties = None, format = None, content = c,
      collection_id = None, view_ids = None\<rparr>"

definition titled_value :: "string \<Rightarrow> string \<Rightarrow> string list option \<Rightarrow> block" where
  "titled_value t s c =
     \<lparr>type = t,
      properties = Some \<lparr>title = Some [(s, [])], caption = None, link = None,
                          checked = None, language = None, source = None\<rparr>,
      format = None, content = c, collection_id = None, view_ids = None\<rparr>"

definition plain_block :: "string \<Rightarrow> string list option \<Rightarrow> entry" where
  "plain_block t c = \<lparr>role = Some ''reader'', blockValue = Some (plain_value t c)\<rparr>"

definition titled_block :: "string \<Rightarrow> string \<Rightarrow> string list option \<Rightarrow> entry" where
  "titled_block t s c = \<lparr>role = Some ''reader'', blockValue = Some (titled_value t s c)\<rparr>"

text \<open>
  Helpers for the examples: the text of each pair becomes a span, lists start at
  1, the top-level page is the block \<open>p\<close> of the map when it is there, and a
  source is its own URL.
\<close>

definition example_util :: util where
  "example_util =
     \<lparr>getTextContent =
        map_option (map (\<lambda>d. \<lparr>span_text = fst d, span_decorations = snd d\<rparr>)),
      findListIndex = (\<lambda>i m. 1),
      getTopLevelPageBlock =
        (\<lambda>b m. case map_of m ''p'' of
                  None \<Rightarrow> b
                | Some e \<Rightarrow> (case blockValue e of None \<Rightarrow> b | Some v \<Rightarrow> v)),
      mapImageURL = (\<lambda>s b. s)\<rparr>"

text \<open>
  The free output type: a node records the arguments its rule was called with.
  As objects, nodes are truthy. \<open>node_rules\<close> registers a rule for the kinds in
  a given list. \<open>node_ids\<close> lists the identifiers of a tree.
\<close>

datatype node = Node string string content "node list option"

definition node_truthy :: "node \<Rightarrow> bool" where
  "node_truthy n = True"

definition node_rules :: "string list \<Rightarrow> node rules" where
  "node_rules kinds k =
     (if k \<in> set kinds then Some (\<lambda>i c ch. Some (Node i k c ch)) else None)"

primrec node_ids :: "node \<Rightarrow> string list" where
  "node_ids (Node i k c ch) =
     i # (case map_option (map node_ids) ch of None \<Rightarrow> [] | Some ls \<Rightarrow> concat ls)"

text \<open>
  Output as strings, where the empty string is falsy: a text block is its
  flattened title, a toggle is a list of its children.
\<close>

definition string_truthy :: "string \<Rightarrow> bool" where
  "string_truthy s = (s \<noteq> [])"

definition html_rules :: "string rules" where
  "html_rules k =
     (if k = ''text'' then
        Some (\<lambda>i c ch. Some (case c of TextContent s \<Rightarrow> concat_spans s | _ \<Rightarrow> []))
      else if k = ''toggle'' then
        Some (\<lambda>i c ch. Some (''<ul>'' @ concat (map (\<lambda>x. ''<li>'' @ x @ ''</li>'')
                                               (case ch of None \<Rightarrow> [] | Some xs \<Rightarrow> xs)) @ ''</ul>''))
      else None)"

text \<open>A page with the children \<open>text, text, divider, text\<close>.\<close>

definition graph_page :: blockmap where
  "graph_page =
     [(''p'', plain_block ''page'' (Some [''a'', ''b'', ''c'', ''d''])),
      (''a'', plain_block ''text'' None),
      (''b'', plain_block ''text'' None),
      (''c'', plain_block ''divider'' None),
      (''d'', plain_block ''text'' None)]"

text \<open>
  A document: two headers, a text, a table of contents, a sub-page that has a
  child of its own, and a child that is not in the map. \<open>doc_tree\<close> is its output
  under the rules for pages, texts, headers and page links.
\<close>

definition graph_doc :: blockmap where
  "graph_doc =
     [(''p'', titled_block ''page'' ''Doc'' (Some [''h1'', ''t'', ''h2'', ''toc'', ''q'', ''gone''])),
      (''h1'', titled_block ''header'' ''Intro'' None),
      (''t'', titled_block ''text'' ''Hello'' None),
      (''h2'', titled_block ''sub_header'' ''Details'' None),
      (''toc'', plain_block ''table_of_contents'' None),
      (''q'', titled_block ''page'' ''Sub'' (Some [''x''])),
      (''x'', titled_block ''text'' ''inner'' None)]"

definition doc_tree :: node where
  "doc_tree =
     Node ''p'' ''page'' NoContent
       (Some
          [Node ''h1'' ''header''
             (HeaderContent (Some [\<lparr>span_text = ''Intro'', span_decorations = []\<rparr>]) 1) None,
           Node ''t'' ''text''
             (TextContent (Some [\<lparr>span_text = ''Hello'', span_decorations = []\<rparr>])) None,
           Node ''h2'' ''header''
             (HeaderContent (Some [\<lparr>span_text = ''Details'', span_decorations = []\<rparr>]) 2) None,
           Node ''q'' ''pageLink'' (PageLinkContent (Some ''Sub'') None) None])"

text \<open>A page whose child is a page without a \<open>properties\<close> bag.\<close>

definition graph_untitled :: blockmap where
  "graph_untitled =
     [(''p'', plain_block ''page'' (Some [''q''])),
      (''q'', plain_block ''page'' None)]"


text \<open>
  Two toggles that list each other, and a page that leads, after a text, into a
  list item and a column that list each other.
\<close>

definition graph_cycle :: blockmap where
  "graph_cycle =
     [(''a'', plain_block ''toggle'' (Some [''b''])),
      (''b'', plain_block ''toggle'' (Some [''a'']))]"

definition graph_loop :: blockmap where
  "graph_loop =
     [(''r'', plain_block ''page'' (Some [''t'', ''l''])),
      (''t'', plain_block ''text'' None),
      (''l'', plain_block ''bulleted_list'' (Some [''m''])),
      (''m'', plain_block ''column'' (Some [''l'']))]"

text \<open>
  A page whose second child \<open>m\<close> is not in the map, a page whose first child
  \<open>m\<close> is not in the map, and two pages with text children where the first child
  of the second page is not in the map.
\<close>

definition graph_gap :: blockmap where
  "graph_gap =
     [(''p'', plain_block ''page'' (Some [''a'', ''m'', ''b''])),
      (''a'', plain_block ''text'' None),
      (''b'', plain_block ''text'' None)]"



text \<open>A bookmark with a link and a two-span title.\<close>

definition example_bookmark :: block where
  "example_bookmark =
     \<lparr>type = ''bookmark'',
      properties = Some \<lparr>title = Some [(''Isabelle'', []), ('' home'', [[''b'']])], caption = None,
                          link = Some [(''https://isabelle.in.tum.de'', [])],
                          checked = None, language = None, source = None\<rparr>,
      format = None, content = None, collection_id = None, view_ids = None\<rparr>"

section \<open>Auxiliary facts\<close>

subsection \<open>Evaluation\<close>

lemmas example_defs =
  plain_block_def titled_block_def plain_value_def titled_value_def example_util_def node_rules_def node_truthy_def
  string_truthy_def html_rules_def

lemmas eval_defs =
  transformBlockMap.simps lookup_def prototype_members_def inherited_member_def resolveBlock_def map_children_def prop_opt_def format_opt_def
  filter_Boolean_def List.map_filter_simps first_text_def first_text_strict_def header_level_def
  concat_spans_def toc_entry_def

lemmas group_defs =
  groupBlocks_def group_parent_def group_child_def child_type_def js_index_def js_assign_def
  children_of_def has_type_def all_marks_def lookup_def prototype_members_def inherited_member_def

lemma lookup_own: "map_of blockMap blockId = Some e \<Longrightarrow> lookup blockMap blockId = Some e"
  by (simp add: lookup_def)

lemma lookup_value:
  assumes "lookup blockMap blockId = Some e" and "blockValue e = Some v"
  shows "map_of blockMap blockId = Some e"
  using assms
  by (cases "map_of blockMap blockId")
     (auto simp: lookup_def inherited_member_def split: if_splits)

text \<open>
  An inherited member has no value: where the source goes on to read \<open>value\<close>
  with \<open>?.\<close>, the read finds what the own properties alone give.
\<close>

lemma children_of_own:
  "children_of blockMap k =
     (case map_of blockMap k of
        None \<Rightarrow> []
      | Some e \<Rightarrow>
          (case blockValue e of
             None \<Rightarrow> []
           | Some v \<Rightarrow> (case content v of None \<Rightarrow> [] | Some ids \<Rightarrow> ids)))"
  by (cases "map_of blockMap k") (simp_all add: children_of_def lookup_def inherited_member_def)

lemma child_type_own:
  "child_type blockMap blockId =
     (case map_of blockMap blockId of
        None \<Rightarrow> None
      | Some e \<Rightarrow> (case blockValue e of None \<Rightarrow> None | Some v \<Rightarrow> Some (type v)))"
  by (cases "map_of blockMap blockId")
     (simp_all add: child_type_def lookup_def inherited_member_def)

lemma toc_entry_own:
  "toc_entry U blockMap blockId =
     (case map_of blockMap blockId of
        None \<Rightarrow> None
      | Some e \<Rightarrow>
          (case blockValue e of
             None \<Rightarrow> None
           | Some v \<Rightarrow>
               if type v = ''header'' \<or> type v = ''sub_header'' \<or> type v = ''sub_sub_header''
               then Some (blockId, header_level (type v), getTextContent U (prop_opt title v))
               else None))"
  by (cases "map_of blockMap blockId")
     (simp_all add: toc_entry_def lookup_def inherited_member_def)

lemma lookup_missing:
  assumes "map_of blockMap blockId = None"
  shows "lookup blockMap blockId =
           (if blockId \<in> set prototype_members then Some inherited_member else None)"
  using assms by (simp add: lookup_def)

subsection \<open>The walk over the children\<close>

lemma map_calls_le:
  assumes "\<And>x r. f x = Some r \<Longrightarrow> g x = Some r"
    and "map_calls f xs = Some r"
  shows "map_calls g xs = Some r"
  using assms(2)
proof (induction xs arbitrary: r)
  case Nil
  then show ?case by simp
next
  case (Cons x xs)
  from Cons.prems obtain z where z: "f x = Some z"
    by (auto simp: bind_eq_Some_conv)
  then have gz: "g x = Some z" by (rule assms(1))
  show ?case
  proof (cases z)
    case (Inl e)
    with Cons.prems z gz show ?thesis by simp
  next
    case (Inr y)
    with Cons.prems z obtain rs where rs: "map_calls f xs = Some rs"
      by (auto simp: bind_eq_Some_conv)
    from Cons.IH [OF rs] Cons.prems z gz Inr rs show ?thesis by simp
  qed
qed

lemma map_children_le:
  assumes "\<And>x r. f x = Some r \<Longrightarrow> g x = Some r"
    and "map_children f ids = Some r"
  shows "map_children g ids = Some r"
proof (cases ids)
  case None
  with assms(2) show ?thesis by (simp add: map_children_def)
next
  case (Some xs)
  with assms(2) obtain r' where r': "map_calls f xs = Some r'" and r: "r = map_sum id Some r'"
    by (auto simp: map_children_def bind_eq_Some_conv)
  from map_calls_le [of f g, OF assms(1) r'] have "map_calls g xs = Some r'" by simp
  with Some r show ?thesis by (simp add: map_children_def)
qed

lemma map_calls_reaches:
  assumes "map_calls f (pre @ j # post) = Some r"
    and "\<And>p z. p \<in> set pre \<Longrightarrow> f p = Some z \<Longrightarrow> \<exists>y. z = Inr y"
  shows "\<exists>z. f j = Some z"
  using assms
proof (induction pre arbitrary: r)
  case Nil
  then show ?case by (auto simp: bind_eq_Some_conv)
next
  case (Cons p pre)
  from Cons.prems(1) obtain z where z: "f p = Some z"
    by (auto simp: bind_eq_Some_conv)
  with Cons.prems(2) obtain y where y: "z = Inr y" by auto
  from Cons.prems(1) z y obtain r' where "map_calls f (pre @ j # post) = Some r'"
    by (auto simp: bind_eq_Some_conv)
  then show ?case
    using Cons.IH Cons.prems(2) by auto
qed

lemma map_calls_total:
  assumes "\<And>x. x \<in> set xs \<Longrightarrow> \<exists>r. f x = Some r"
  shows "\<exists>r. map_calls f xs = Some r"
  using assms
proof (induction xs)
  case Nil
  then show ?case by simp
next
  case (Cons x xs)
  from Cons.prems obtain z where z: "f x = Some z" by auto
  from Cons obtain rs where rs: "map_calls f xs = Some rs" by auto
  show ?case
    using z rs by (cases z; cases rs) simp_all
qed

lemma map_calls_results:
  assumes "map_calls f xs = Some (Inr ys)"
  shows "list_all2 (\<lambda>x y. f x = Some (Inr y)) xs ys"
  using assms
proof (induction xs arbitrary: ys)
  case Nil
  then show ?case by simp
next
  case (Cons x xs)
  from Cons.prems obtain z where z: "f x = Some z"
    by (auto simp: bind_eq_Some_conv)
  from Cons.prems z obtain y where y: "z = Inr y"
    by (cases z) auto
  from Cons.prems z y obtain rs where rs: "map_calls f xs = Some rs"
    by (auto simp: bind_eq_Some_conv)
  from Cons.prems z y rs obtain ys' where ys': "rs = Inr ys'" "ys = y # ys'"
    by (cases rs) auto
  with Cons.IH rs z y show ?case by simp
qed



lemma filter_Boolean_subset: "t \<in> set (filter_Boolean B ys) \<Longrightarrow> Some t \<in> set ys"
  by (induction ys) (auto simp: filter_Boolean_def List.map_filter_simps split: option.splits if_splits)

subsection \<open>Unfolding and induction for transformBlockMap\<close>

lemma transform_unfold:
  "transformBlockMap U B blockMap blockId transformationRules isTopLevel =
     transform_body (\<lambda>i. transformBlockMap U B blockMap i transformationRules False)
       U B blockMap blockId transformationRules isTopLevel"
  unfolding transform_body_def by (rule transformBlockMap.simps)

lemma transform_body_cases:
  assumes "transform_body call U B blockMap blockId transformationRules isTopLevel = Some y"
  obtains (missing) "lookup blockMap blockId = None" "y = Inr None"
  | (no_value) e where "lookup blockMap blockId = Some e" "blockValue e = None" "y = Inl TypeError"
  | (raises) e v err where "lookup blockMap blockId = Some e" "blockValue e = Some v"
      "resolveBlock U blockMap blockId v isTopLevel = Inl err" "y = Inl err"
  | (child_raises) e v kind c ids err where "lookup blockMap blockId = Some e" "blockValue e = Some v"
      "resolveBlock U blockMap blockId v isTopLevel = Inr (kind, c, ids)"
      "map_children call ids = Some (Inl err)" "y = Inl err"
  | (returns) e v kind c ids children where "lookup blockMap blockId = Some e" "blockValue e = Some v"
      "resolveBlock U blockMap blockId v isTopLevel = Inr (kind, c, ids)"
      "map_children call ids = Some (Inr children)"
      "y = Inr (case transformationRules kind of
                  None \<Rightarrow> None
                | Some rule \<Rightarrow> rule blockId c (map_option (filter_Boolean B) children))"
proof (cases "lookup blockMap blockId")
  case None
  with assms missing show ?thesis by (simp add: transform_body_def)
next
  case (Some e)
  note e = this
  show ?thesis
  proof (cases "blockValue e")
    case None
    with assms e no_value show ?thesis by (simp add: transform_body_def)
  next
    case (Some v)
    note v = this
    show ?thesis
    proof (cases "resolveBlock U blockMap blockId v isTopLevel")
      case (Inl err)
      with assms e v raises show ?thesis by (simp add: transform_body_def)
    next
      case (Inr triple)
      then obtain kind c ids where
        res: "resolveBlock U blockMap blockId v isTopLevel = Inr (kind, c, ids)"
        by (cases triple) auto
      from assms e v res obtain r where r: "map_children call ids = Some r"
        and y: "(case r of
                   Inl e \<Rightarrow> Some (Inl e)
                 | Inr children \<Rightarrow>
                     Some (Inr (case transformationRules kind of
                                  None \<Rightarrow> None
                                | Some rule \<Rightarrow>
                                    rule blockId c (map_option (filter_Boolean B) children)))) = Some y"
        by (auto simp: transform_body_def bind_eq_Some_conv)
      show ?thesis
      proof (cases r)
        case (Inl err)
        with r y show ?thesis by (intro child_raises [OF e v res]) auto
      next
        case (Inr children)
        with r y show ?thesis by (intro returns [OF e v res]) auto
      qed
    qed
  qed
qed

lemma transform_body_le:
  assumes le: "\<And>x r. f x = Some r \<Longrightarrow> g x = Some r"
    and "transform_body f U B blockMap blockId transformationRules isTopLevel = Some y"
  shows "transform_body g U B blockMap blockId transformationRules isTopLevel = Some y"
  using assms(2)
proof (cases rule: transform_body_cases)
  case missing
  then show ?thesis by (simp add: transform_body_def)
next
  case (no_value e)
  then show ?thesis by (simp add: transform_body_def)
next
  case (raises e v err)
  then show ?thesis by (simp add: transform_body_def)
next
  case (child_raises e v kind c ids err)
  from map_children_le [of f g, OF le child_raises(4)] child_raises
  show ?thesis by (simp add: transform_body_def)
next
  case (returns e v kind c ids children)
  from map_children_le [of f g, OF le returns(4)] returns
  show ?thesis by (simp add: transform_body_def)
qed

text \<open>
  Induction over the calls that return: what holds of a call whenever it holds
  of the calls it makes, holds of every call that returns.
\<close>

lemma transform_induct [consumes 1, case_names call]:
  fixes U :: util and B :: "'t \<Rightarrow> bool" and transformationRules :: "'t rules"
  assumes ret: "transformBlockMap U B blockMap rootId transformationRules isTopLevel = Some y"
    and step: "\<And>call i t r.
        (\<And>x z. call x = Some z \<Longrightarrow>
           transformBlockMap U B blockMap x transformationRules False = Some z \<and> P x False z) \<Longrightarrow>
        transform_body call U B blockMap i transformationRules t = Some r \<Longrightarrow> P i t r"
  shows "P rootId isTopLevel y"
proof -
  let ?Q = "\<lambda>U' B' bm' i rules' t r.
      U' = U \<longrightarrow> B' = B \<longrightarrow> bm' = blockMap \<longrightarrow> rules' = transformationRules \<longrightarrow>
        transformBlockMap U B blockMap i transformationRules t = Some r \<and> P i t r"
  have "?Q U B blockMap rootId transformationRules isTopLevel y"
  proof (rule transformBlockMap.raw_induct [where P = ?Q, OF _ ret], intro impI, hypsubst)
    fix f :: "util \<Rightarrow> ('t \<Rightarrow> bool) \<Rightarrow> blockmap \<Rightarrow> string \<Rightarrow> 't rules \<Rightarrow> bool \<Rightarrow> (error + 't option) option"
    fix i t r
    assume ih: "\<And>U' B' bm' i rules' t r. f U' B' bm' i rules' t = Some r \<Longrightarrow> ?Q U' B' bm' i rules' t r"
    assume body0: "(case lookup blockMap i of
        None \<Rightarrow> Some (Inr None)
      | Some blk \<Rightarrow>
          (case blockValue blk of
             None \<Rightarrow> Some (Inl TypeError)
           | Some v \<Rightarrow>
               (case resolveBlock U blockMap i v t of
                  Inl e \<Rightarrow> Some (Inl e)
                | Inr (kind, c, ids) \<Rightarrow>
                    Option.bind
                      (map_children (\<lambda>x. f U B blockMap x transformationRules False) ids)
                      (\<lambda>r. case r of
                             Inl e \<Rightarrow> Some (Inl e)
                           | Inr children \<Rightarrow>
                               Some (Inr (case transformationRules kind of
                                            None \<Rightarrow> None
                                          | Some rule \<Rightarrow>
                                              rule i c
                                                (map_option (filter_Boolean B) children))))))) = Some r"
    then have body: "transform_body (\<lambda>x. f U B blockMap x transformationRules False)
                       U B blockMap i transformationRules t = Some r"
      by (simp add: transform_body_def)
    have ih': "\<And>x z. f U B blockMap x transformationRules False = Some z \<Longrightarrow>
                 transformBlockMap U B blockMap x transformationRules False = Some z \<and> P x False z"
      using ih by blast
    have "transform_body (\<lambda>x. transformBlockMap U B blockMap x transformationRules False)
            U B blockMap i transformationRules t = Some r"
      by (rule transform_body_le [OF _ body]) (use ih' in blast)
    then have "transformBlockMap U B blockMap i transformationRules t = Some r"
      by (simp add: transform_unfold [symmetric])
    moreover have "P i t r"
      by (rule step [OF _ body]) (use ih' in blast)
    ultimately show "transformBlockMap U B blockMap i transformationRules t = Some r \<and> P i t r" ..
  qed
  then show ?thesis by simp
qed

lemma transform_no_children:
  assumes "map_of blockMap blockId = Some e" and "blockValue e = Some v"
    and "resolveBlock U blockMap blockId v isTopLevel = Inr (kind, c, None)"
  shows "transformBlockMap U B blockMap blockId transformationRules isTopLevel =
           Some (Inr (case transformationRules kind of
                        None \<Rightarrow> None
                      | Some rule \<Rightarrow> rule blockId c None))"
  by (subst transformBlockMap.simps)
     (simp add: lookup_own [OF assms(1)] assms(2,3) map_children_def split: option.splits)

lemma resolve_children:
  assumes "resolveBlock U blockMap i v t = Inr (kind, c, Some ids)"
  shows "content v = Some ids"
  using assms
  by (simp add: resolveBlock_def Let_def split: if_splits option.splits list.splits sum.splits)

subsection \<open>Termination, reachability and divergence\<close>

lemma children_of_in_map:
  assumes "c \<in> set (children_of blockMap p)"
  shows "p \<in> fst ` set blockMap"
proof -
  from assms obtain e v where "lookup blockMap p = Some e" "blockValue e = Some v"
    by (cases "lookup blockMap p"; cases "blockValue (the (lookup blockMap p))")
       (auto simp: children_of_def)
  then have "map_of blockMap p \<noteq> None"
    by (simp add: lookup_value)
  then show ?thesis
    by (simp add: map_of_eq_None_iff)
qed

lemma finite_child_rel: "finite (child_rel blockMap)"
proof -
  have "child_rel blockMap \<subseteq> (\<Union>p\<in>fst ` set blockMap. set (children_of blockMap p)) \<times> fst ` set blockMap"
    using children_of_in_map by (fastforce simp: child_rel_def)
  moreover have "finite ((\<Union>p\<in>fst ` set blockMap. set (children_of blockMap p)) \<times> fst ` set blockMap)"
    by simp
  ultimately show ?thesis by (rule finite_subset)
qed

lemma transform_returns_if_children_do:
  assumes "\<And>x. x \<in> set (children_of blockMap i) \<Longrightarrow>
             \<exists>r. transformBlockMap U B blockMap x transformationRules False = Some r"
  shows "\<exists>r. transformBlockMap U B blockMap i transformationRules t = Some r"
proof (cases "lookup blockMap i")
  case None
  then show ?thesis by (subst transform_unfold) (simp add: transform_body_def)
next
  case (Some e)
  note e = this
  show ?thesis
  proof (cases "blockValue e")
    case None
    with e show ?thesis by (subst transform_unfold) (simp add: transform_body_def)
  next
    case (Some v)
    note v = this
    show ?thesis
    proof (cases "resolveBlock U blockMap i v t")
      case (Inl err)
      with e v show ?thesis by (subst transform_unfold) (simp add: transform_body_def)
    next
      case (Inr triple)
      then obtain kind c ids where
        res: "resolveBlock U blockMap i v t = Inr (kind, c, ids)"
        by (cases triple) auto
      have "\<exists>r. map_children (\<lambda>x. transformBlockMap U B blockMap x transformationRules False) ids = Some r"
      proof (cases ids)
        case None
        then show ?thesis by (simp add: map_children_def)
      next
        case (Some l)
        with res have "content v = Some l" by (auto dest: resolve_children)
        with e v have "children_of blockMap i = l" by (simp add: children_of_def)
        with assms have "\<exists>r. map_calls (\<lambda>x. transformBlockMap U B blockMap x transformationRules False) l = Some r"
          by (intro map_calls_total) auto
        with Some show ?thesis by (auto simp: map_children_def)
      qed
      then obtain r where
        "map_children (\<lambda>x. transformBlockMap U B blockMap x transformationRules False) ids = Some r"
        by blast
      with e v res show ?thesis
        by (subst transform_unfold) (cases r; simp add: transform_body_def)
    qed
  qed
qed

lemma transform_terminates:
  assumes "acyclic (child_rel blockMap)"
  shows "\<exists>r. transformBlockMap U B blockMap i transformationRules t = Some r"
proof -
  have "wf (child_rel blockMap)"
    using finite_child_rel assms by (rule finite_acyclic_wf)
  then show ?thesis
  proof (induction i arbitrary: t rule: wf_induct_rule)
    case (less i)
    show ?case
      by (rule transform_returns_if_children_do) (use less in \<open>auto simp: child_rel_def\<close>)
  qed
qed

lemma nodes_reachable:
  assumes "transformBlockMap U B blockMap rootId (node_rules kinds) isTopLevel = Some (Inr (Some n))"
  shows "set (node_ids n) \<subseteq> {i. (i, rootId) \<in> (child_rel blockMap)\<^sup>* \<and> map_of blockMap i \<noteq> None}"
proof -
  have "\<forall>n. y = Inr (Some n) \<longrightarrow>
          set (node_ids n) \<subseteq> {i. (i, rootId) \<in> (child_rel blockMap)\<^sup>* \<and> map_of blockMap i \<noteq> None}"
    if "transformBlockMap U B blockMap rootId (node_rules kinds) isTopLevel = Some y" for y
    using that
  proof (induction rule: transform_induct)
    case (call f i t r)
    show ?case
    proof (intro allI impI)
      fix n
      assume n: "r = Inr (Some n)"
      from call(2) show "set (node_ids n) \<subseteq> {j. (j, i) \<in> (child_rel blockMap)\<^sup>* \<and> map_of blockMap j \<noteq> None}"
      proof (cases rule: transform_body_cases)
        case (returns e v kind c ids children)
        from returns(5) n have nd: "n = Node i kind c (map_option (filter_Boolean B) children)"
          by (auto simp: node_rules_def split: if_splits)
        have own: "map_of blockMap i \<noteq> None"
          using lookup_value [OF returns(1,2)] by simp
        show ?thesis
        proof (cases ids)
          case None
          with returns(4) have "children = None" by (simp add: map_children_def)
          with nd own show ?thesis by simp
        next
          case (Some l)
          with returns(4) obtain rs where rs: "map_calls f l = Some rs" "map_sum id Some rs = Inr children"
            by (auto simp: map_children_def bind_eq_Some_conv)
          then obtain ys where ys: "map_calls f l = Some (Inr ys)" and ch: "children = Some ys"
            by (cases rs) auto
          from Some returns(3) have "content v = Some l" by (auto dest: resolve_children)
          with returns(1,2) have l: "children_of blockMap i = l" by (simp add: children_of_def)
          have "set (node_ids m) \<subseteq> {j. (j, i) \<in> (child_rel blockMap)\<^sup>* \<and> map_of blockMap j \<noteq> None}"
            if "m \<in> set (filter_Boolean B ys)" for m
          proof -
            from that have "Some m \<in> set ys" by (rule filter_Boolean_subset)
            then obtain k where k: "k < length ys" "ys ! k = Some m"
              by (auto simp: in_set_conv_nth)
            from map_calls_results [OF ys] k have "k < length l" "f (l ! k) = Some (Inr (Some m))"
              by (auto simp: list_all2_conv_all_nth)
            then obtain x where x: "x \<in> set l" "f x = Some (Inr (Some m))"
              by (auto intro: nth_mem)
            from call(1) [OF x(2)]
            have sub: "set (node_ids m) \<subseteq> {j. (j, x) \<in> (child_rel blockMap)\<^sup>* \<and> map_of blockMap j \<noteq> None}"
              by simp
            from x(1) l have "(x, i) \<in> child_rel blockMap" by (simp add: child_rel_def)
            with sub show ?thesis by (auto intro: rtrancl_into_rtrancl)
          qed
          with nd ch own show ?thesis by auto
        qed
      qed (use n in simp_all)
    qed
  qed
  with assms show ?thesis by blast
qed

text \<open>
  A set of calls each of which makes, after calls that return, a call of the set:
  no call of the set returns.
\<close>

lemma diverges_on_closed_set:
  fixes U :: util and B :: "'t \<Rightarrow> bool" and transformationRules :: "'t rules"
  assumes closed: "\<And>i t. (i, t) \<in> D \<Longrightarrow>
            \<exists>e v kind c pre j post.
              map_of blockMap i = Some e \<and> blockValue e = Some v
              \<and> resolveBlock U blockMap i v t = Inr (kind, c, Some (pre @ j # post))
              \<and> (j, False) \<in> D
              \<and> (\<forall>x\<in>set pre. \<exists>y. transformBlockMap U B blockMap x transformationRules False = Some (Inr y))"
    and root: "(rootId, isTopLevel) \<in> D"
  shows "transformBlockMap U B blockMap rootId transformationRules isTopLevel = None"
proof (rule ccontr)
  assume "transformBlockMap U B blockMap rootId transformationRules isTopLevel \<noteq> None"
  then obtain y where y: "transformBlockMap U B blockMap rootId transformationRules isTopLevel = Some y"
    by auto
  from y have "(rootId, isTopLevel) \<notin> D"
  proof (induction rule: transform_induct)
    case (call f i t r)
    show ?case
    proof
      assume "(i, t) \<in> D"
      from closed [OF this] obtain e v kind c pre j post where
        h: "map_of blockMap i = Some e" "blockValue e = Some v"
           "resolveBlock U blockMap i v t = Inr (kind, c, Some (pre @ j # post))"
           "(j, False) \<in> D"
           "\<forall>x\<in>set pre. \<exists>y. transformBlockMap U B blockMap x transformationRules False = Some (Inr y)"
        by blast
      from call(2) lookup_own [OF h(1)] h(2,3) obtain r' where
        r: "map_calls f (pre @ j # post) = Some r'"
        by (auto simp: transform_body_def map_children_def bind_eq_Some_conv)
      have "\<exists>z. f j = Some z"
      proof (rule map_calls_reaches [OF r])
        fix p z
        assume "p \<in> set pre" and "f p = Some z"
        with call(1) h(5) show "\<exists>y. z = Inr y" by fastforce
      qed
      with call(1) h(4) show False by blast
    qed
  qed
  with root show False by simp
qed

lemma closed_stepI:
  assumes "map_of blockMap i = Some e" and "blockValue e = Some v"
    and "resolveBlock U blockMap i v t = Inr (kind, c, Some (pre @ j # post))"
    and "(j, False) \<in> D"
    and "\<forall>x\<in>set pre. \<exists>y. transformBlockMap U B blockMap x transformationRules False = Some (Inr y)"
  shows "\<exists>e v kind c pre j post.
           map_of blockMap i = Some e \<and> blockValue e = Some v
           \<and> resolveBlock U blockMap i v t = Inr (kind, c, Some (pre @ j # post))
           \<and> (j, False) \<in> D
           \<and> (\<forall>x\<in>set pre. \<exists>y. transformBlockMap U B blockMap x transformationRules False = Some (Inr y))"
  using assms by blast

subsection \<open>The bounded call stack\<close>

lemma transform_body_total:
  assumes "\<And>x. \<exists>r. call x = Some r"
  shows "\<exists>r. transform_body call U B blockMap blockId transformationRules isTopLevel = Some r"
proof -
  have "\<exists>r. map_children call ids = Some r" for ids
  proof (cases ids)
    case None
    then show ?thesis by (simp add: map_children_def)
  next
    case (Some l)
    from map_calls_total [of l call] assms obtain r where "map_calls call l = Some r"
      by blast
    with Some show ?thesis by (simp add: map_children_def)
  qed
  then have mc: "\<exists>r. map_children call ids = Some r" for ids
    by blast
  show ?thesis
  proof (cases "lookup blockMap blockId")
    case None
    then show ?thesis by (simp add: transform_body_def)
  next
    case blk: (Some blk)
    show ?thesis
    proof (cases "blockValue blk")
      case None
      with blk show ?thesis by (simp add: transform_body_def)
    next
      case v: (Some v)
      show ?thesis
      proof (cases "resolveBlock U blockMap blockId v isTopLevel")
        case (Inl e)
        with blk v show ?thesis by (simp add: transform_body_def)
      next
        case (Inr p)
        obtain kind c ids where p: "p = (kind, c, ids)" by (cases p)
        from mc obtain r where r: "map_children call ids = Some r" by blast
        from blk v Inr p r show ?thesis
          by (cases r) (simp_all add: transform_body_def)
      qed
    qed
  qed
qed

lemma transform_stack_total:
  "\<exists>r. transformBlockMap_stack n U B blockMap blockId transformationRules isTopLevel = Some r"
proof (induction n arbitrary: blockId isTopLevel)
  case 0
  show ?case by simp
next
  case (Suc n)
  show ?case
    unfolding transformBlockMap_stack.simps by (rule transform_body_total) (rule Suc)
qed

lemma map_calls_sound:
  assumes "\<And>x z. g x = Some z \<Longrightarrow> z \<noteq> Inl RangeError \<Longrightarrow> f x = Some z"
    and "map_calls g xs = Some rs" and "rs \<noteq> Inl RangeError"
  shows "map_calls f xs = Some rs"
  using assms(2,3)
proof (induction xs arbitrary: rs)
  case Nil
  then show ?case by simp
next
  case (Cons x xs)
  from Cons.prems(1) obtain z where z: "g x = Some z"
    by (auto simp: bind_eq_Some_conv)
  show ?case
  proof (cases z)
    case (Inl e)
    with Cons.prems z have "rs = Inl e" "e \<noteq> RangeError" by auto
    with assms(1) [OF z] Inl show ?thesis by simp
  next
    case (Inr y)
    with assms(1) [OF z] have fz: "f x = Some (Inr y)" by simp
    from Cons.prems(1) z Inr obtain rs' where rs': "map_calls g xs = Some rs'"
      and eq: "(case rs' of Inl e \<Rightarrow> Some (Inl e) | Inr ys \<Rightarrow> Some (Inr (y # ys))) = Some rs"
      by (auto simp: bind_eq_Some_conv)
    from eq have rs: "rs = (case rs' of Inl e \<Rightarrow> Inl e | Inr ys \<Rightarrow> Inr (y # ys))"
      by (cases rs') auto
    from rs Cons.prems(2) have "rs' \<noteq> Inl RangeError" by auto
    from Cons.IH [OF rs' this] fz rs show ?thesis by (cases rs') simp_all
  qed
qed

lemma map_children_sound:
  assumes "\<And>x z. g x = Some z \<Longrightarrow> z \<noteq> Inl RangeError \<Longrightarrow> f x = Some z"
    and "map_children g ids = Some rs" and "rs \<noteq> Inl RangeError"
  shows "map_children f ids = Some rs"
proof (cases ids)
  case None
  with assms(2) show ?thesis by (simp add: map_children_def)
next
  case (Some xs)
  with assms(2) obtain r' where r': "map_calls g xs = Some r'" and r: "rs = map_sum id Some r'"
    by (auto simp: map_children_def bind_eq_Some_conv)
  from r assms(3) have "r' \<noteq> Inl RangeError" by auto
  from map_calls_sound [of g f, OF assms(1) r' this] Some r show ?thesis
    by (simp add: map_children_def)
qed

text \<open>
  What a call gives on a bounded stack, unless it is a \<open>RangeError\<close>, is what it
  gives on a stack without bound.
\<close>

lemma transform_stack_sound:
  assumes "transformBlockMap_stack n U B blockMap blockId transformationRules isTopLevel = Some z"
    and "z \<noteq> Inl RangeError"
  shows "transformBlockMap U B blockMap blockId transformationRules isTopLevel = Some z"
  using assms
proof (induction n arbitrary: blockId isTopLevel z)
  case 0
  then show ?case by simp
next
  case (Suc n)
  let ?g = "\<lambda>i. transformBlockMap_stack n U B blockMap i transformationRules False"
  let ?f = "\<lambda>i. transformBlockMap U B blockMap i transformationRules False"
  from Suc.prems(1) have body:
    "transform_body ?g U B blockMap blockId transformationRules isTopLevel = Some z"
    by simp
  have sound: "\<And>ids rs. map_children ?g ids = Some rs \<Longrightarrow> rs \<noteq> Inl RangeError
                 \<Longrightarrow> map_children ?f ids = Some rs"
    by (rule map_children_sound [of ?g ?f]) (auto intro: Suc.IH)
  from body have "transform_body ?f U B blockMap blockId transformationRules isTopLevel = Some z"
  proof (cases rule: transform_body_cases)
    case missing
    then show ?thesis by (simp add: transform_body_def)
  next
    case (no_value e)
    then show ?thesis by (simp add: transform_body_def)
  next
    case (raises e v err)
    then show ?thesis by (simp add: transform_body_def)
  next
    case (child_raises e v kind c ids err)
    with Suc.prems(2) have "err \<noteq> RangeError" by simp
    with sound [OF child_raises(4)] child_raises show ?thesis
      by (simp add: transform_body_def)
  next
    case (returns e v kind c ids children)
    with sound [OF returns(4)] show ?thesis
      by (simp add: transform_body_def)
  qed
  then show ?case by (simp add: transform_unfold [symmetric])
qed

text \<open>
  And what a call gives on a stack without bound it gives on every stack that is
  large enough.
\<close>

lemma map_calls_enough:
  assumes "map_calls f xs = Some rs"
    and "\<And>x z. f x = Some z \<Longrightarrow> \<exists>N::nat. \<forall>n\<ge>N. g n x = Some z"
  shows "\<exists>N::nat. \<forall>n\<ge>N. map_calls (g n) xs = Some rs"
  using assms(1)
proof (induction xs arbitrary: rs)
  case Nil
  then show ?case by simp
next
  case (Cons x xs)
  from Cons.prems obtain z where z: "f x = Some z"
    by (auto simp: bind_eq_Some_conv)
  from assms(2) [OF z] obtain N1 where N1: "\<forall>n\<ge>N1. g n x = Some z" by blast
  show ?case
  proof (cases z)
    case (Inl e)
    with Cons.prems z have "rs = Inl e" by simp
    with N1 Inl show ?thesis by (intro exI [of _ N1]) simp
  next
    case (Inr y)
    with Cons.prems z obtain rs' where rs': "map_calls f xs = Some rs'"
      and eq: "(case rs' of Inl e \<Rightarrow> Some (Inl e) | Inr ys \<Rightarrow> Some (Inr (y # ys))) = Some rs"
      by (auto simp: bind_eq_Some_conv)
    from eq have rs: "rs = (case rs' of Inl e \<Rightarrow> Inl e | Inr ys \<Rightarrow> Inr (y # ys))"
      by (cases rs') auto
    from Cons.IH [OF rs'] obtain N2 where N2: "\<forall>n\<ge>N2. map_calls (g n) xs = Some rs'" by blast
    show ?thesis
    proof (intro exI [of _ "max N1 N2"] allI impI)
      fix n
      assume "max N1 N2 \<le> n"
      then have "N1 \<le> n" "N2 \<le> n" by simp_all
      with N1 N2 have "g n x = Some z" "map_calls (g n) xs = Some rs'" by blast+
      with Inr rs show "map_calls (g n) (x # xs) = Some rs"
        by (cases rs') simp_all
    qed
  qed
qed

lemma transform_stack_enough:
  assumes "transformBlockMap U B blockMap blockId transformationRules isTopLevel = Some z"
  shows "\<exists>N. \<forall>n\<ge>N. transformBlockMap_stack n U B blockMap blockId transformationRules isTopLevel
           = Some z"
  using assms
proof (induction rule: transform_induct)
  case (call f i t r)
  let ?g = "\<lambda>n x. transformBlockMap_stack n U B blockMap x transformationRules False"
  have enough: "\<exists>N. \<forall>n\<ge>N. map_children (?g n) ids = Some rs"
    if "map_children f ids = Some rs" for ids rs
  proof (cases ids)
    case None
    with that show ?thesis by (simp add: map_children_def)
  next
    case (Some xs)
    with that obtain r' where r': "map_calls f xs = Some r'" and rs: "rs = map_sum id Some r'"
      by (auto simp: map_children_def bind_eq_Some_conv)
    from map_calls_enough [of f xs r' ?g, OF r'] call(1) obtain N where
      "\<forall>n\<ge>N. map_calls (?g n) xs = Some r'"
      by blast
    with Some rs show ?thesis by (intro exI [of _ N]) (simp add: map_children_def)
  qed
  have "\<exists>N. \<forall>n\<ge>N. transform_body (?g n) U B blockMap i transformationRules t = Some r"
    using call(2)
  proof (cases rule: transform_body_cases)
    case missing
    then show ?thesis by (simp add: transform_body_def)
  next
    case (no_value e)
    then show ?thesis by (simp add: transform_body_def)
  next
    case (raises e v err)
    then show ?thesis by (simp add: transform_body_def)
  next
    case (child_raises e v kind c ids err)
    from enough [OF child_raises(4)] obtain N where
      "\<forall>n\<ge>N. map_children (?g n) ids = Some (Inl err)" by blast
    with child_raises show ?thesis
      by (intro exI [of _ N]) (simp add: transform_body_def)
  next
    case (returns e v kind c ids children)
    from enough [OF returns(4)] obtain N where
      "\<forall>n\<ge>N. map_children (?g n) ids = Some (Inr children)" by blast
    with returns show ?thesis
      by (intro exI [of _ N]) (simp add: transform_body_def)
  qed
  then obtain N where N: "\<forall>n\<ge>N. transform_body (?g n) U B blockMap i transformationRules t = Some r"
    by blast
  show ?case
  proof (intro exI [of _ "Suc N"] allI impI)
    fix n
    assume "Suc N \<le> n"
    then obtain m where "n = Suc m" "N \<le> m" by (cases n) auto
    with N show "transformBlockMap_stack n U B blockMap i transformationRules t = Some r"
      by simp
  qed
qed

text \<open>
  A call whose recursion does not end on a stack without bound ends with a
  \<open>RangeError\<close> on every bounded one.
\<close>

lemma overflows_on_closed_set:
  fixes U :: util and B :: "'t \<Rightarrow> bool" and transformationRules :: "'t rules"
  assumes "\<And>i t. (i, t) \<in> D \<Longrightarrow>
            \<exists>e v kind c pre j post.
              map_of blockMap i = Some e \<and> blockValue e = Some v
              \<and> resolveBlock U blockMap i v t = Inr (kind, c, Some (pre @ j # post))
              \<and> (j, False) \<in> D
              \<and> (\<forall>x\<in>set pre. \<exists>y. transformBlockMap U B blockMap x transformationRules False = Some (Inr y))"
    and "(rootId, isTopLevel) \<in> D"
  shows "transformBlockMap_stack n U B blockMap rootId transformationRules isTopLevel =
           Some (Inl RangeError)"
proof -
  have none: "transformBlockMap U B blockMap rootId transformationRules isTopLevel = None"
    using assms by (rule diverges_on_closed_set)
  from transform_stack_total obtain z where
    z: "transformBlockMap_stack n U B blockMap rootId transformationRules isTopLevel = Some z"
    by blast
  with transform_stack_sound [OF z] none show ?thesis
    by (cases "z = Inl RangeError") auto
qed

subsection \<open>The content of single blocks\<close>

lemma resolve_header:
  assumes "type v = ''header'' \<or> type v = ''sub_header'' \<or> type v = ''sub_sub_header''"
  shows "resolveBlock U blockMap blockId v isTopLevel =
           Inr (''header'',
                HeaderContent (getTextContent U (case properties v of None \<Rightarrow> None | Some p \<Rightarrow> title p))
                  (if type v = ''header'' then 1 else if type v = ''sub_header'' then 2 else 3),
                None)"
  using assms by (auto simp: resolveBlock_def header_level_def prop_opt_def)

lemma foldl_span_text: "foldl (\<lambda>a b. a @ span_text b) acc xs = acc @ concat (map span_text xs)"
  by (induction xs arbitrary: acc) simp_all

lemma map_filter_toc:
  "List.map_filter (toc_entry U blockMap) ids =
     map (\<lambda>(i, v). (i, (if type v = ''header'' then 1 else if type v = ''sub_header'' then 2 else 3),
                     getTextContent U (case properties v of None \<Rightarrow> None | Some p \<Rightarrow> title p)))
       (header_children blockMap ids)"
  by (induction ids)
     (auto simp: List.map_filter_simps toc_entry_own header_children_def header_level_def prop_opt_def
        split: option.splits)

lemma resolve_toc:
  assumes "type v = ''table_of_contents''"
  shows "resolveBlock U blockMap blockId v isTopLevel =
           Inr (''table_of_contents'',
                TocContent
                  (map (\<lambda>(i, h). (i, (if type h = ''header'' then 1
                                       else if type h = ''sub_header'' then 2 else 3),
                                   getTextContent U (case properties h of None \<Rightarrow> None | Some p \<Rightarrow> title p)))
                     (header_children blockMap
                        (case content (getTopLevelPageBlock U v blockMap) of
                           None \<Rightarrow> []
                         | Some ids \<Rightarrow> ids))),
                None)"
  using assms by (simp add: resolveBlock_def map_filter_toc)

lemma resolve_page_link:
  assumes "type v = ''page''" and "properties v = Some p"
  shows "resolveBlock U blockMap blockId v False =
           Inr (''pageLink'',
                PageLinkContent (case title p of Some (d # ds) \<Rightarrow> Some (fst d) | _ \<Rightarrow> None)
                  (case format v of None \<Rightarrow> None | Some f \<Rightarrow> page_icon f),
                None)"
  using assms
  by (auto simp add: resolveBlock_def first_text_def format_opt_def split: option.splits list.splits)

subsection \<open>The walk of groupBlocks\<close>

lemma group_parent_walk:
  "group_parent blockMap k st =
     (case for_each (group_child blockMap) (children_of blockMap k) st of
        Inl e \<Rightarrow> Inl e
      | Inr (groups, ty, index) \<Rightarrow> Inr (groups, None, index))"
  by (cases st) (simp add: group_parent_def children_of_def split: option.splits)




lemma update_last_slot: "(map Some H @ [x])[length H := y] = map Some H @ [y]"
  by (metis length_map list_update_length)

lemma group_child_step:
  "group_child blockMap c (map Some H, ty, int (length H) - 1) =
     (if has_type blockMap c \<and> child_type blockMap c \<noteq> ty
      then Inr (map Some (H @ [[c]]), child_type blockMap c, int (length (H @ [[c]])) - 1)
      else if H = [] then Inl TypeError
      else Inr (map Some (butlast H @ [last H @ [c]]), ty,
                int (length (butlast H @ [last H @ [c]])) - 1))"
proof (cases "has_type blockMap c \<and> child_type blockMap c \<noteq> ty")
  case True
  then show ?thesis
    by (auto simp: group_child_def has_type_def js_assign_def js_index_def nth_append
        update_last_slot split: option.splits)
next
  case False
  show ?thesis
  proof (cases "H = []")
    case True
    with False show ?thesis
      by (auto simp: group_child_def has_type_def js_index_def split: option.splits)
  next
    case nonempty: False
    then obtain H' g where H: "H = H' @ [g]"
      by (cases H rule: rev_cases) auto
    with False show ?thesis
      by (auto simp: group_child_def has_type_def js_assign_def js_index_def nth_append
          update_last_slot split: option.splits)
  qed
qed

lemma extend_append: "extend H (xs @ ys) = extend (extend H xs) ys"
  by (induction H xs rule: extend.induct) auto

lemma extend_nonempty: "H \<noteq> [] \<Longrightarrow> extend H ms \<noteq> []"
  by (induction H ms rule: extend.induct) auto

lemma extend_cut:
  assumes "H \<noteq> []"
  shows "extend H ms =
           butlast H @ [last H @ map fst (takeWhile (\<lambda>x. \<not> snd x) ms)]
             @ cut (dropWhile (\<lambda>x. \<not> snd x) ms)"
  using assms
proof (induction H ms rule: extend.induct)
  case (1 H)
  then show ?case by simp
next
  case (2 H c b ms)
  show ?case
  proof (cases b)
    case True
    with 2 show ?thesis by simp
  next
    case False
    with 2 show ?thesis by simp
  qed
qed

lemma extend_empty_cut:
  assumes "ms = [] \<or> snd (hd ms)"
  shows "extend [] ms = cut ms"
proof (cases ms)
  case Nil
  then show ?thesis by simp
next
  case (Cons m ms')
  with assms have "snd m" by simp
  then show ?thesis
    using Cons extend_cut [of "[[fst m]]" ms'] by (cases m) simp
qed

lemma extend_unmarked:
  assumes "H \<noteq> [] \<or> us = []"
  shows "length (extend H (map (\<lambda>u. (u, False)) us)) = length H"
  using assms by (induction us arbitrary: H) auto



lemma walk_marks:
  assumes "H \<noteq> [] \<or> marks blockMap ty cs = [] \<or> snd (hd (marks blockMap ty cs))"
  shows "\<exists>ty'. for_each (group_child blockMap) cs (map Some H, ty, int (length H) - 1) =
           Inr (map Some (extend H (marks blockMap ty cs)), ty',
                int (length (extend H (marks blockMap ty cs))) - 1)"
  using assms
proof (induction cs arbitrary: H ty)
  case Nil
  then show ?case by simp
next
  case (Cons c cs)
  show ?case
  proof (cases "has_type blockMap c \<and> child_type blockMap c \<noteq> ty")
    case True
    have m: "marks blockMap ty (c # cs) = (c, True) # marks blockMap (child_type blockMap c) cs"
      using True by simp
    have g: "group_child blockMap c (map Some H, ty, int (length H) - 1) =
               Inr (map Some (H @ [[c]]), child_type blockMap c, int (length (H @ [[c]])) - 1)"
      using True by (simp add: group_child_step)
    have "H @ [[c]] \<noteq> [] \<or> marks blockMap (child_type blockMap c) cs = []
          \<or> snd (hd (marks blockMap (child_type blockMap c) cs))"
      by simp
    from Cons.IH [OF this] show ?thesis
      unfolding m by (simp only: for_each.simps g sum.case extend.simps if_True)
  next
    case False
    with Cons.prems have H: "H \<noteq> []" by auto
    have m: "marks blockMap ty (c # cs) = (c, False) # marks blockMap ty cs"
      using False by auto
    have g: "group_child blockMap c (map Some H, ty, int (length H) - 1) =
               Inr (map Some (butlast H @ [last H @ [c]]), ty,
                    int (length (butlast H @ [last H @ [c]])) - 1)"
      using False H by (simp add: group_child_step)
    have "butlast H @ [last H @ [c]] \<noteq> [] \<or> marks blockMap ty cs = []
          \<or> snd (hd (marks blockMap ty cs))"
      by simp
    from Cons.IH [OF this] show ?thesis
      unfolding m by (simp only: for_each.simps g sum.case extend.simps if_False)
  qed
qed

lemma walk_parents:
  assumes "H \<noteq> [] \<or> concat (map (\<lambda>k. marks blockMap None (children_of blockMap k)) ks) = []
           \<or> snd (hd (concat (map (\<lambda>k. marks blockMap None (children_of blockMap k)) ks)))"
  shows "for_each (group_parent blockMap) ks (map Some H, None, int (length H) - 1) =
           Inr (map Some (extend H (concat (map (\<lambda>k. marks blockMap None (children_of blockMap k)) ks))),
                None,
                int (length (extend H (concat (map (\<lambda>k. marks blockMap None (children_of blockMap k)) ks)))) - 1)"
  using assms
proof (induction ks arbitrary: H)
  case Nil
  then show ?case by simp
next
  case (Cons k ks)
  let ?M1 = "marks blockMap None (children_of blockMap k)"
  let ?M2 = "concat (map (\<lambda>k. marks blockMap None (children_of blockMap k)) ks)"
  have ok1: "H \<noteq> [] \<or> ?M1 = [] \<or> snd (hd ?M1)"
    using Cons.prems by (cases ?M1) auto
  from walk_marks [OF ok1] obtain ty' where
    w: "for_each (group_child blockMap) (children_of blockMap k) (map Some H, None, int (length H) - 1) =
          Inr (map Some (extend H ?M1), ty', int (length (extend H ?M1)) - 1)"
    by blast
  have ok2: "extend H ?M1 \<noteq> [] \<or> ?M2 = [] \<or> snd (hd ?M2)"
  proof (cases "?M1 = []")
    case True
    with Cons.prems show ?thesis by auto
  next
    case False
    have "extend H ?M1 \<noteq> []"
    proof (cases "H = []")
      case True
      with ok1 False have "snd (hd ?M1)" by simp
      with False True show ?thesis
        by (cases ?M1) (auto simp: extend_nonempty)
    next
      case False
      then show ?thesis by (rule extend_nonempty)
    qed
    then show ?thesis by simp
  qed
  from Cons.IH [OF ok2] w show ?case
    by (simp add: group_parent_walk extend_append)
qed

section \<open>Missing blocks\<close>




section \<open>Headers\<close>

text \<open>
  Claim C6. A block of type \<open>header\<close>, \<open>sub_header\<close> or \<open>sub_sub_header\<close> leaves
  the \<open>switch\<close> with the kind \<open>header\<close>, the content \<open>{text, level}\<close> where
  \<open>text\<close> is the flattened title and \<open>level\<close> is 1, 2 or 3 in this order, and no
  children; the call returns what the rule for \<open>header\<close> makes of them, or
  \<open>undefined\<close> without such a rule.
\<close>

theorem header_family_kind_and_level:
  assumes "map_of blockMap blockId = Some e" and "blockValue e = Some v"
    and "type v = ''header'' \<or> type v = ''sub_header'' \<or> type v = ''sub_sub_header''"
  shows "resolveBlock U blockMap blockId v isTopLevel =
           Inr (''header'',
                HeaderContent (getTextContent U (case properties v of None \<Rightarrow> None | Some p \<Rightarrow> title p))
                  (if type v = ''header'' then 1 else if type v = ''sub_header'' then 2 else 3),
                None)
         \<and> transformBlockMap U B blockMap blockId transformationRules isTopLevel =
           Some (Inr (case transformationRules ''header'' of
                        None \<Rightarrow> None
                      | Some rule \<Rightarrow>
                          rule blockId
                            (HeaderContent
                               (getTextContent U (case properties v of None \<Rightarrow> None | Some p \<Rightarrow> title p))
                               (if type v = ''header'' then 1 else if type v = ''sub_header'' then 2 else 3))
                            None))"
proof (rule conjI)
  show r: "resolveBlock U blockMap blockId v isTopLevel =
           Inr (''header'',
                HeaderContent (getTextContent U (case properties v of None \<Rightarrow> None | Some p \<Rightarrow> title p))
                  (if type v = ''header'' then 1 else if type v = ''sub_header'' then 2 else 3),
                None)"
    by (rule resolve_header [OF assms(3)])
  show "transformBlockMap U B blockMap blockId transformationRules isTopLevel =
           Some (Inr (case transformationRules ''header'' of
                        None \<Rightarrow> None
                      | Some rule \<Rightarrow>
                          rule blockId
                            (HeaderContent
                               (getTextContent U (case properties v of None \<Rightarrow> None | Some p \<Rightarrow> title p))
                               (if type v = ''header'' then 1 else if type v = ''sub_header'' then 2 else 3))
                            None))"
    by (rule transform_no_children [OF assms(1,2) r])
qed

theorem header_family_kind_and_level_witness:
  "map_of graph_doc ''h2'' = Some (titled_block ''sub_header'' ''Details'' None)
   \<and> type (titled_value ''sub_header'' ''Details'' None) = ''sub_header''
   \<and> transformBlockMap example_util node_truthy graph_doc ''h2'' (node_rules [''header'']) False =
       Some (Inr (Some (Node ''h2'' ''header''
                          (HeaderContent (Some [\<lparr>span_text = ''Details'', span_decorations = []\<rparr>]) 2)
                          None)))"
proof -
  have h1: "map_of graph_doc ''h2'' = Some (titled_block ''sub_header'' ''Details'' None)"
    by (simp add: graph_doc_def)
  have h2: "blockValue (titled_block ''sub_header'' ''Details'' None) =
              Some (titled_value ''sub_header'' ''Details'' None)"
    by (simp add: titled_block_def)
  have h3: "type (titled_value ''sub_header'' ''Details'' None) = ''header''
            \<or> type (titled_value ''sub_header'' ''Details'' None) = ''sub_header''
            \<or> type (titled_value ''sub_header'' ''Details'' None) = ''sub_sub_header''"
    by (simp add: titled_value_def)
  show ?thesis
    using h1 header_family_kind_and_level [OF h1 h2 h3, of example_util False node_truthy
        "node_rules [''header'']"]
    by (simp add: example_defs)
qed

section \<open>Bookmarks\<close>

text \<open>
  Claim C9. For a block of type \<open>bookmark\<close> whose \<open>link\<close> property is present
  (it has a first pair), the fields \<open>title\<close> and \<open>desc\<close> of the content are
  equal: each is the concatenation of the texts of all spans of the flattened
  title property.
\<close>

theorem bookmark_title_equals_desc:
  assumes "type v = ''bookmark''" and "properties v = Some p" and "link p = Some (l # ls)"
  shows "resolveBlock U blockMap blockId v isTopLevel =
           Inr (''bookmark'',
                BookmarkContent (fst l)
                  (concat (map span_text (case getTextContent U (title p) of None \<Rightarrow> [] | Some xs \<Rightarrow> xs)))
                  (concat (map span_text (case getTextContent U (title p) of None \<Rightarrow> [] | Some xs \<Rightarrow> xs)))
                  (case format v of None \<Rightarrow> None | Some f \<Rightarrow> bookmark_icon f)
                  (case format v of None \<Rightarrow> None | Some f \<Rightarrow> bookmark_cover f)
                  (case format v of None \<Rightarrow> None | Some f \<Rightarrow> block_color f),
                None)"
  using assms
  by (simp add: resolveBlock_def concat_spans_def foldl_span_text format_opt_def)

theorem bookmark_title_equals_desc_witness:
  "type example_bookmark = ''bookmark''
   \<and> resolveBlock example_util graph_page ''k'' example_bookmark False =
       Inr (''bookmark'',
            BookmarkContent ''https://isabelle.in.tum.de'' ''Isabelle home'' ''Isabelle home''
              None None None,
            None)"
proof -
  have h1: "type example_bookmark = ''bookmark''"
    by (simp add: example_bookmark_def)
  have h2: "properties example_bookmark =
              Some \<lparr>title = Some [(''Isabelle'', []), ('' home'', [[''b'']])], caption = None,
                     link = Some [(''https://isabelle.in.tum.de'', [])],
                     checked = None, language = None, source = None\<rparr>"
    by (simp add: example_bookmark_def)
  have h3: "link \<lparr>title = Some [(''Isabelle'', []), ('' home'', [[''b'']])], caption = None,
                   link = Some [(''https://isabelle.in.tum.de'', [])],
                   checked = None, language = None, source = None\<rparr> =
              Some ((''https://isabelle.in.tum.de'', []) # [])"
    by simp
  show ?thesis
    using h1 bookmark_title_equals_desc [OF h1 h2 h3, of example_util graph_page "''k''" False]
    by (simp add: example_util_def example_bookmark_def)
qed

section \<open>Tables of contents\<close>

text \<open>
  Claim C2. The content of a block of type \<open>table_of_contents\<close> is not read from
  the block: it is built from the child list of the page that
  \<open>getTopLevelPageBlock\<close> returns. The children of that list that are in the map
  and of type \<open>header\<close>, \<open>sub_header\<close> or \<open>sub_sub_header\<close> give, in the order of
  the list, one entry \<open>{id, level, text}\<close> each, with level 1, 2 or 3 and the
  flattened title; every other child, a missing one too, gives nothing. The block
  has no children: nothing is recursed into.
\<close>

theorem toc_lists_header_children:
  assumes "map_of blockMap blockId = Some e" and "blockValue e = Some v"
    and "type v = ''table_of_contents''"
  shows "resolveBlock U blockMap blockId v isTopLevel =
           Inr (''table_of_contents'',
                TocContent
                  (map (\<lambda>(i, h). (i, (if type h = ''header'' then 1
                                       else if type h = ''sub_header'' then 2 else 3),
                                   getTextContent U (case properties h of None \<Rightarrow> None | Some p \<Rightarrow> title p)))
                     (header_children blockMap
                        (case content (getTopLevelPageBlock U v blockMap) of
                           None \<Rightarrow> []
                         | Some ids \<Rightarrow> ids))),
                None)
         \<and> transformBlockMap U B blockMap blockId transformationRules isTopLevel =
           Some (Inr (case transformationRules ''table_of_contents'' of
                        None \<Rightarrow> None
                      | Some rule \<Rightarrow>
                          rule blockId
                            (TocContent
                               (map (\<lambda>(i, h). (i, (if type h = ''header'' then 1
                                                    else if type h = ''sub_header'' then 2 else 3),
                                                getTextContent U
                                                  (case properties h of None \<Rightarrow> None | Some p \<Rightarrow> title p)))
                                  (header_children blockMap
                                     (case content (getTopLevelPageBlock U v blockMap) of
                                        None \<Rightarrow> []
                                      | Some ids \<Rightarrow> ids))))
                            None))"
  using resolve_toc [OF assms(3)] transform_no_children [OF assms(1,2) resolve_toc [OF assms(3)]]
  by (rule conjI)

theorem toc_lists_header_children_witness:
  "map_of graph_doc ''toc'' = Some (plain_block ''table_of_contents'' None)
   \<and> content (getTopLevelPageBlock example_util (plain_value ''table_of_contents'' None) graph_doc) =
       Some [''h1'', ''t'', ''h2'', ''toc'', ''q'', ''gone'']
   \<and> transformBlockMap example_util node_truthy graph_doc ''toc'' (node_rules [''table_of_contents''])
       False =
       Some (Inr (Some (Node ''toc'' ''table_of_contents''
                          (TocContent
                             [(''h1'', 1, Some [\<lparr>span_text = ''Intro'', span_decorations = []\<rparr>]),
                              (''h2'', 2, Some [\<lparr>span_text = ''Details'', span_decorations = []\<rparr>])])
                          None)))"
proof -
  have h1: "map_of graph_doc ''toc'' = Some (plain_block ''table_of_contents'' None)"
    by (simp add: graph_doc_def)
  have h2: "blockValue (plain_block ''table_of_contents'' None) =
              Some (plain_value ''table_of_contents'' None)"
    by (simp add: plain_block_def)
  have h3: "type (plain_value ''table_of_contents'' None) = ''table_of_contents''"
    by (simp add: plain_value_def)
  show ?thesis
    using h1 toc_lists_header_children [OF h1 h2 h3, of example_util False node_truthy
        "node_rules [''table_of_contents'']"]
    by (simp add: example_defs graph_doc_def header_children_def)
qed

section \<open>Pages below the root\<close>

text \<open>
  Claim C1. A block of type \<open>page\<close> transformed with \<open>isTopLevel\<close> false is
  to become a \<open>pageLink\<close> with the content \<open>{title, icon}\<close> and no children.
  The branch guards a missing title and a missing format
  (\<open>title?.[0]?.[0]\<close>, \<open>format?.page_icon\<close>) but reads
  \<open>block.value.properties.title\<close>, where the branches for texts, toggles, list
  items, headers, to-dos, tables of contents, quotes, code and callouts read
  \<open>properties?.title\<close>: for a page without a \<open>properties\<close> bag, such as the
  sub-page \<open>q\<close> of \<open>graph_untitled\<close>, the call raises a \<open>TypeError\<close>, and so
  does the call for the page \<open>p\<close> above it.
\<close>

theorem untitled_page_link_raises:
  "resolveBlock example_util graph_untitled ''q'' (plain_value ''page'' None) False = Inl TypeError
   \<and> transformBlockMap example_util node_truthy graph_untitled ''q'' (node_rules [''page'', ''pageLink''])
       False = Some (Inl TypeError)
   \<and> transformBlockMap example_util node_truthy graph_untitled ''p'' (node_rules [''page'', ''pageLink''])
       True = Some (Inl TypeError)"
  by (simp add: eval_defs example_defs graph_untitled_def)

text \<open>
  For a page that has a \<open>properties\<close> bag the branch does what claim C1 says: the
  \<open>switch\<close> is left with the kind \<open>pageLink\<close>, the content \<open>{title, icon}\<close> (the
  text of the first title pair, \<open>undefined\<close> without one, and the \<open>page_icon\<close> of
  the format) and no children, whatever the child list of the page is, and the
  call returns what the rule for \<open>pageLink\<close> makes of them.
\<close>

theorem page_link_kind_content_no_children:
  assumes "map_of blockMap blockId = Some e" and "blockValue e = Some v"
    and "type v = ''page''" and "properties v = Some p"
  shows "resolveBlock U blockMap blockId v False =
           Inr (''pageLink'',
                PageLinkContent (case title p of Some (d # ds) \<Rightarrow> Some (fst d) | _ \<Rightarrow> None)
                  (case format v of None \<Rightarrow> None | Some f \<Rightarrow> page_icon f),
                None)
         \<and> transformBlockMap U B blockMap blockId transformationRules False =
           Some (Inr (case transformationRules ''pageLink'' of
                        None \<Rightarrow> None
                      | Some rule \<Rightarrow>
                          rule blockId
                            (PageLinkContent (case title p of Some (d # ds) \<Rightarrow> Some (fst d) | _ \<Rightarrow> None)
                               (case format v of None \<Rightarrow> None | Some f \<Rightarrow> page_icon f))
                            None))"
  using resolve_page_link [OF assms(3,4)]
    transform_no_children [OF assms(1,2) resolve_page_link [OF assms(3,4)]]
  by (rule conjI)

theorem page_link_kind_content_no_children_witness:
  "map_of graph_doc ''q'' = Some (titled_block ''page'' ''Sub'' (Some [''x'']))
   \<and> content (titled_value ''page'' ''Sub'' (Some [''x''])) = Some [''x'']
   \<and> transformBlockMap example_util node_truthy graph_doc ''q'' (node_rules [''page'', ''pageLink''])
       False =
       Some (Inr (Some (Node ''q'' ''pageLink'' (PageLinkContent (Some ''Sub'') None) None)))"
proof -
  have h1: "map_of graph_doc ''q'' = Some (titled_block ''page'' ''Sub'' (Some [''x'']))"
    by (simp add: graph_doc_def)
  have h2: "blockValue (titled_block ''page'' ''Sub'' (Some [''x''])) =
              Some (titled_value ''page'' ''Sub'' (Some [''x'']))"
    by (simp add: titled_block_def)
  have h3: "type (titled_value ''page'' ''Sub'' (Some [''x''])) = ''page''"
    by (simp add: titled_value_def)
  have h4: "properties (titled_value ''page'' ''Sub'' (Some [''x''])) =
              Some \<lparr>title = Some [(''Sub'', [])], caption = None, link = None,
                     checked = None, language = None, source = None\<rparr>"
    by (simp add: titled_value_def)
  show ?thesis
    using h1 page_link_kind_content_no_children [OF h1 h2 h3 h4, of example_util node_truthy
        "node_rules [''page'', ''pageLink'']"]
    by (simp add: example_defs)
qed

section \<open>The rule call\<close>




section \<open>Cycles\<close>

text \<open>
  Claim C4 says that a cycle is reported by a \<open>CyclicGraphError\<close> that names the
  identifier closing it. The source carries no visited set and has no \<open>throw\<close>:
  for the two toggles of \<open>graph_cycle\<close>, which list each other, the recursion
  goes on until the call stack is exhausted, and the call ends with the
  \<open>RangeError\<close> of the engine, on a stack of one frame as on one of ten thousand.
\<close>

theorem cycle_overflows_stack:
  "transformBlockMap_stack 1 example_util node_truthy graph_cycle ''a'' (node_rules [''toggle'']) True =
     Some (Inl RangeError)
   \<and> transformBlockMap_stack 10000 example_util node_truthy graph_cycle ''a'' (node_rules [''toggle''])
       True = Some (Inl RangeError)"
proof -
  have closed: "\<exists>e v kind c pre j post.
              map_of graph_cycle i = Some e \<and> blockValue e = Some v
              \<and> resolveBlock example_util graph_cycle i v t = Inr (kind, c, Some (pre @ j # post))
              \<and> (j, False) \<in> {''a'', ''b''} \<times> UNIV
              \<and> (\<forall>x\<in>set pre. \<exists>y. transformBlockMap example_util node_truthy graph_cycle x
                                     (node_rules [''toggle'']) False = Some (Inr y))"
    if "(i, t) \<in> {''a'', ''b''} \<times> (UNIV :: bool set)" for i t
  proof -
    from that consider "i = ''a''" | "i = ''b''" by auto
    then show ?thesis
    proof cases
      case 1
      show ?thesis
        by (rule closed_stepI [where e = "plain_block ''toggle'' (Some [''b''])"
              and v = "plain_value ''toggle'' (Some [''b''])" and kind = "''toggle''"
              and c = "TextContent None" and pre = "[]" and j = "''b''" and post = "[]"])
           (simp_all add: 1 graph_cycle_def resolveBlock_def example_defs prop_opt_def)
    next
      case 2
      show ?thesis
        by (rule closed_stepI [where e = "plain_block ''toggle'' (Some [''a''])"
              and v = "plain_value ''toggle'' (Some [''a''])" and kind = "''toggle''"
              and c = "TextContent None" and pre = "[]" and j = "''a''" and post = "[]"])
           (simp_all add: 2 graph_cycle_def resolveBlock_def example_defs prop_opt_def)
    qed
  qed
  have root: "(''a'', True) \<in> {''a'', ''b''} \<times> (UNIV :: bool set)" by simp
  show ?thesis
    using overflows_on_closed_set [of "{''a'', ''b''} \<times> UNIV" graph_cycle example_util node_truthy
        "node_rules [''toggle'']" "''a''" True, OF closed root]
    by simp
qed

text \<open>
  Claim C4, as the source has it. Nothing detects a cycle and no
  \<open>CyclicGraphError\<close> is raised. When the root call belongs to a set of calls
  each of which is for a block that recurses and reaches, after siblings whose
  calls return a value, a child whose call is in the set again (as on a cycle of
  toggles, list items, to-dos, columns or column lists), the recursion does not
  end by itself: whatever the size of the call stack, it goes on until the stack
  is exhausted and the call ends with a \<open>RangeError\<close>.
\<close>

theorem transform_overflows_on_cycle:
  fixes U :: util and B :: "'t \<Rightarrow> bool" and transformationRules :: "'t rules"
  assumes "\<And>i t. (i, t) \<in> D \<Longrightarrow>
            \<exists>e v kind c pre j post.
              map_of blockMap i = Some e \<and> blockValue e = Some v
              \<and> resolveBlock U blockMap i v t = Inr (kind, c, Some (pre @ j # post))
              \<and> (j, False) \<in> D
              \<and> (\<forall>x\<in>set pre. \<exists>y. transformBlockMap U B blockMap x transformationRules False = Some (Inr y))"
    and "(rootId, isTopLevel) \<in> D"
  shows "transformBlockMap_stack n U B blockMap rootId transformationRules isTopLevel =
           Some (Inl RangeError)"
  using assms by (rule overflows_on_closed_set)

theorem transform_overflows_on_cycle_witness:
  "(''r'', True) \<in> {(''r'', True), (''l'', False), (''m'', False)}
   \<and> transformBlockMap example_util node_truthy graph_loop ''t'' (node_rules [''page'', ''text'']) False =
       Some (Inr (Some (Node ''t'' ''text'' (TextContent None) None)))
   \<and> transformBlockMap_stack 5000 example_util node_truthy graph_loop ''r''
       (node_rules [''page'', ''text'']) True = Some (Inl RangeError)"
proof -
  let ?D = "{(''r'', True), (''l'', False), (''m'', False)}"
  have t: "transformBlockMap example_util node_truthy graph_loop ''t'' (node_rules [''page'', ''text''])
             False = Some (Inr (Some (Node ''t'' ''text'' (TextContent None) None)))"
    by (simp add: eval_defs example_defs graph_loop_def)
  have closed: "\<exists>e v kind c pre j post.
              map_of graph_loop i = Some e \<and> blockValue e = Some v
              \<and> resolveBlock example_util graph_loop i v t = Inr (kind, c, Some (pre @ j # post))
              \<and> (j, False) \<in> ?D
              \<and> (\<forall>x\<in>set pre. \<exists>y. transformBlockMap example_util node_truthy graph_loop x
                                     (node_rules [''page'', ''text'']) False = Some (Inr y))"
    if "(i, t) \<in> ?D" for i t
  proof -
    from that consider "i = ''r''" "t" | "i = ''l''" "\<not> t" | "i = ''m''" "\<not> t" by auto
    then show ?thesis
    proof cases
      case 1
      show ?thesis
      proof (rule closed_stepI [where e = "plain_block ''page'' (Some [''t'', ''l''])"
              and v = "plain_value ''page'' (Some [''t'', ''l''])" and kind = "''page''"
              and c = NoContent and pre = "[''t'']" and j = "''l''" and post = "[]"])
        show "map_of graph_loop i = Some (plain_block ''page'' (Some [''t'', ''l'']))"
          by (simp add: 1 graph_loop_def)
        show "blockValue (plain_block ''page'' (Some [''t'', ''l''])) =
                Some (plain_value ''page'' (Some [''t'', ''l'']))"
          by (simp add: plain_block_def)
        show "resolveBlock example_util graph_loop i (plain_value ''page'' (Some [''t'', ''l''])) t =
                Inr (''page'', NoContent, Some ([''t''] @ ''l'' # []))"
          by (simp add: 1 resolveBlock_def plain_value_def)
        show "(''l'', False) \<in> ?D" by simp
        show "\<forall>x\<in>set [''t'']. \<exists>y. transformBlockMap example_util node_truthy graph_loop x
                (node_rules [''page'', ''text'']) False = Some (Inr y)"
          using t by simp
      qed
    next
      case 2
      show ?thesis
        by (rule closed_stepI [where e = "plain_block ''bulleted_list'' (Some [''m''])"
              and v = "plain_value ''bulleted_list'' (Some [''m''])" and kind = "''bulleted_list''"
              and c = "ListContent None 1 None" and pre = "[]" and j = "''m''" and post = "[]"])
           (simp_all add: 2 graph_loop_def resolveBlock_def example_defs prop_opt_def format_opt_def)
    next
      case 3
      show ?thesis
        by (rule closed_stepI [where e = "plain_block ''column'' (Some [''l''])"
              and v = "plain_value ''column'' (Some [''l''])" and kind = "''column''"
              and c = "ColumnContent (1 / 2)" and pre = "[]" and j = "''l''" and post = "[]"])
           (simp_all add: 3 graph_loop_def resolveBlock_def example_defs prop_opt_def format_opt_def)
    qed
  qed
  have root: "(''r'', True) \<in> ?D" by simp
  show ?thesis
    using root t transform_overflows_on_cycle [of ?D graph_loop example_util node_truthy
        "node_rules [''page'', ''text'']" "''r''" True 5000, OF closed root]
    by simp
qed

section \<open>Graphs without cycles\<close>

text \<open>
  Claim C5. When the child-identifier references of the graph have no cycle,
  \<open>transformBlockMap\<close> terminates for every root, rule set and value of
  \<open>isTopLevel\<close> (it returns a value or raises; it does not run on). And every node
  of the output tree is for an identifier that is in the map and reachable from
  the root along child-identifier references: this is stated for the rules that
  build the free tree, whose nodes record the identifier their rule was called
  with, for any set of registered kinds.
\<close>

theorem acyclic_transform_terminates_reachable:
  assumes "acyclic (child_rel blockMap)"
  shows "(\<exists>r. transformBlockMap U B blockMap rootId transformationRules isTopLevel = Some r)
         \<and> (\<forall>n. transformBlockMap U B' blockMap rootId (node_rules kinds) isTopLevel =
                   Some (Inr (Some n)) \<longrightarrow>
                 set (node_ids n) \<subseteq>
                   {i. (i, rootId) \<in> (child_rel blockMap)\<^sup>* \<and> map_of blockMap i \<noteq> None})"
  using transform_terminates [OF assms] nodes_reachable by blast

theorem acyclic_transform_terminates_reachable_witness:
  "acyclic (child_rel graph_doc)
   \<and> transformBlockMap example_util node_truthy graph_doc ''p''
       (node_rules [''page'', ''text'', ''header'', ''pageLink'']) True = Some (Inr (Some doc_tree))
   \<and> node_ids doc_tree = [''p'', ''h1'', ''t'', ''h2'', ''q'']
   \<and> set (node_ids doc_tree) \<subseteq>
       {i. (i, ''p'') \<in> (child_rel graph_doc)\<^sup>* \<and> map_of graph_doc i \<noteq> None}"
proof -
  have "child_rel graph_doc \<subseteq>
          measure (\<lambda>k. if k = ''p'' then 2 else if k = ''q'' then 1 else 0)"
    by (auto simp: child_rel_def children_of_own graph_doc_def example_defs split: if_splits)
  then have h: "acyclic (child_rel graph_doc)"
    by (intro wf_acyclic wf_subset [OF wf_measure])
  have ev: "transformBlockMap example_util node_truthy graph_doc ''p''
              (node_rules [''page'', ''text'', ''header'', ''pageLink'']) True = Some (Inr (Some doc_tree))"
    by (simp add: eval_defs example_defs graph_doc_def doc_tree_def)
  have ids: "node_ids doc_tree = [''p'', ''h1'', ''t'', ''h2'', ''q'']"
    by (simp add: doc_tree_def)
  from acyclic_transform_terminates_reachable [OF h, of example_util node_truthy "''p''"
      "node_rules [''page'', ''text'', ''header'', ''pageLink'']" True node_truthy
      "[''page'', ''text'', ''header'', ''pageLink'']"] ev
  have "set (node_ids doc_tree) \<subseteq>
          {i. (i, ''p'') \<in> (child_rel graph_doc)\<^sup>* \<and> map_of graph_doc i \<noteq> None}"
    by blast
  with h ev ids show ?thesis by blast
qed

section \<open>Groups of children\<close>

text \<open>
  Claim C7 says that a child whose type cannot be resolved is skipped. The inner
  callback pushes every child identifier onto the current group: in \<open>graph_gap\<close>
  the child \<open>m\<close>, which is not in the map, is in the group between \<open>a\<close> and
  \<open>b\<close>.
\<close>

theorem unresolved_child_kept_in_group:
  "map_of graph_gap ''m'' = None
   \<and> groupBlocks graph_gap = Inr [Some [''a'', ''m'', ''b'']]
   \<and> groupBlocks graph_gap \<noteq> Inr [Some [''a'', ''b'']]"
  by (simp add: graph_gap_def group_defs example_defs)

text \<open>
  Claim C7, as the source has it. \<open>groupBlocks\<close> walks the child list of each key
  in order. A child starts a new group exactly when it has a type and that type
  is not the last type seen under the same parent (none at the start of a
  parent); a child whose type cannot be resolved starts no group, leaves the
  tracked type as it is and is appended to the current group: it is kept, not
  skipped. So when the first child walked has a type (there is a group for every
  child to go to), the result is the list of all children, parent after parent,
  cut at the children that start a group; children of the types
  \<open>text, text, divider, text\<close> give three groups.
\<close>

theorem groupBlocks_cut:
  assumes "all_marks blockMap = [] \<or> snd (hd (all_marks blockMap))"
  shows "groupBlocks blockMap = Inr (map Some (cut (all_marks blockMap)))"
proof -
  have "for_each (group_parent blockMap) (map fst blockMap)
          (map Some [], None, int (length ([] :: string list list)) - 1) =
          Inr (map Some (extend [] (all_marks blockMap)), None,
               int (length (extend [] (all_marks blockMap))) - 1)"
    unfolding all_marks_def by (rule walk_parents) (use assms in \<open>simp add: all_marks_def\<close>)
  then show ?thesis
    by (simp add: groupBlocks_def extend_empty_cut [OF assms])
qed

theorem groupBlocks_cut_witness:
  "map (child_type graph_page) [''a'', ''b'', ''c'', ''d''] =
       [Some ''text'', Some ''text'', Some ''divider'', Some ''text'']
   \<and> all_marks graph_page = [(''a'', True), (''b'', False), (''c'', True), (''d'', True)]
   \<and> groupBlocks graph_page = Inr [Some [''a'', ''b''], Some [''c''], Some [''d'']]"
proof -
  have m: "all_marks graph_page = [(''a'', True), (''b'', False), (''c'', True), (''d'', True)]"
    by (simp add: graph_page_def all_marks_def children_of_own has_type_def child_type_own
        example_defs)
  then have h: "all_marks graph_page = [] \<or> snd (hd (all_marks graph_page))"
    by simp
  have t: "map (child_type graph_page) [''a'', ''b'', ''c'', ''d''] =
       [Some ''text'', Some ''text'', Some ''divider'', Some ''text'']"
    by (simp add: graph_page_def child_type_own example_defs)
  have "groupBlocks graph_page = Inr [Some [''a'', ''b''], Some [''c''], Some [''d'']]"
    using groupBlocks_cut [OF h] by (simp add: m)
  with m t show ?thesis by blast
qed




end
